theory Spec2Isabelle
  imports Main
begin

section \<open>Data model\<close>

text \<open>
  The program keeps a changelog as a tree: an \<open>Entry\<close> owns \<open>Change\<close>s, a \<open>Change\<close> owns
  \<open>Detail\<close>s, a \<open>Detail\<close> owns its text lines. Go strings are byte sequences, so a string
  is a \<open>char list\<close> here. The date of an entry is a \<open>time.Time\<close> of Go's standard library;
  it is kept as the civil date, the clock time and the zone offset that the layout
  \<open>Mon, 02 Jan 2006 15:04:05 -0700\<close> reads and prints.
\<close>

record Time =
  year :: int
  month :: nat
  day :: nat
  hour :: nat
  minute :: nat
  second :: nat
  nsec :: nat
  zoneOffset :: int

record Detail =
  Lines :: "string list"

record Change =
  Summary :: string
  Details :: "Detail list"

record Entry =
  Package :: string
  Version :: string
  Distributions :: string
  Metadata :: string
  MaintainerName :: string
  EmailAddress :: string
  Date :: Time
  Changes :: "Change list"

text \<open>The zero value of \<open>time.Time\<close>: January 1 of year 1, 00:00:00 UTC.\<close>

definition zeroTime :: Time where
  "zeroTime = \<lparr>year = 1, month = 1, day = 1, hour = 0, minute = 0, second = 0, nsec = 0,
     zoneOffset = 0\<rparr>"

abbreviation LF :: char where
  "LF \<equiv> CHR 0x0A"

definition changePrefix :: string where
  "changePrefix = ''  * ''"

definition detailHeadPrefix :: string where
  "detailHeadPrefix = ''    - ''"

definition detailTailPrefix :: string where
  "detailTailPrefix = ''      ''"

definition maintainerLinePrefix :: string where
  "maintainerLinePrefix = '' -- ''"

datatype parseState =
  parseStateInitial | parseStateInEntry | parseStateInChange | parseStateInDetail

text \<open>
  Errors. \<open>FormatError\<close> carries the message of a \<open>fmt.Errorf\<close> of the parser,
  \<open>ReadError\<close> the message of an error of the underlying reader other than end of file,
  and \<open>NilDereference\<close> is the runtime panic of a write through a nil pointer.
\<close>

datatype error = FormatError string | ReadError string | NilDereference

section \<open>The filter\<close>

text \<open>
  \<open>regexp.Regexp.MatchString\<close> belongs to Go's standard library. The compiled filter is
  taken as the predicate \<open>re\<close> that \<open>MatchString\<close> computes for it.
  \<open>Detail.Matches\<close> returns at the first line that matches.
\<close>

primrec Matches_loop :: "(string \<Rightarrow> bool) \<Rightarrow> string list \<Rightarrow> bool" where
  "Matches_loop re [] = False"
| "Matches_loop re (line # rest) = (if re line then True else Matches_loop re rest)"

definition Matches :: "Detail \<Rightarrow> (string \<Rightarrow> bool) \<Rightarrow> bool" where
  "Matches d re = Matches_loop re (Lines d)"

text \<open>
  The pattern \<open>.\<close> of the default \<open>-filter\<close> flag matches one character other than a
  newline, anywhere in the text: it matches exactly the strings that hold such a
  character.
\<close>

definition matchDot :: "string \<Rightarrow> bool" where
  "matchDot s = list_ex (\<lambda>c. c \<noteq> LF) s"

text \<open>
  \<open>filterEntries\<close> keeps three variables: the slice \<open>matchedEntries\<close> and the pointers
  \<open>matchedEntry\<close> and \<open>matchedChange\<close>. \<open>matchedEntry\<close> is either nil or the address of
  the last element of \<open>matchedEntries\<close> (it is set only right after an append to that
  slice, and reset to nil before the next one); \<open>matchedChange\<close> is either nil or the
  address of the last element of the \<open>Changes\<close> of that last entry (it is set only right
  after an append there). So each pointer is modelled by whether it is set, and a write
  through it is a write to the last element.
\<close>

record fstate =
  matchedEntries :: "Entry list"
  matchedEntry :: bool
  matchedChange :: bool

definition upd_last :: "('a \<Rightarrow> 'a) \<Rightarrow> 'a list \<Rightarrow> 'a list" where
  "upd_last f xs = (if xs = [] then [] else butlast xs @ [f (last xs)])"

definition appendChange :: "fstate \<Rightarrow> Entry \<Rightarrow> Change \<Rightarrow> fstate" where
  "appendChange s entry change =
     (let s1 = (if \<not> matchedEntry s
                then s\<lparr>matchedEntries := matchedEntries s @
                         [\<lparr>Package = Package entry, Version = Version entry,
                           Distributions = Distributions entry, Metadata = Metadata entry,
                           MaintainerName = MaintainerName entry,
                           EmailAddress = EmailAddress entry, Date = Date entry,
                           Changes = []\<rparr>],
                       matchedEntry := True\<rparr>
                else s)
      in s1\<lparr>matchedEntries :=
               upd_last (\<lambda>me. me\<lparr>Changes := Changes me @
                                     [\<lparr>Summary = Summary change, Details = []\<rparr>]\<rparr>)
                 (matchedEntries s1),
             matchedChange := True\<rparr>)"

definition appendDetail :: "fstate \<Rightarrow> Entry \<Rightarrow> Change \<Rightarrow> Detail \<Rightarrow> fstate" where
  "appendDetail s entry change detail =
     (let s1 = (if \<not> matchedChange s then appendChange s entry change else s)
      in s1\<lparr>matchedEntries :=
               upd_last (\<lambda>me. me\<lparr>Changes :=
                   upd_last (\<lambda>mc. mc\<lparr>Details := Details mc @ [detail]\<rparr>) (Changes me)\<rparr>)
                 (matchedEntries s1)\<rparr>)"

primrec detailLoop :: "(string \<Rightarrow> bool) \<Rightarrow> Entry \<Rightarrow> Change \<Rightarrow> fstate \<Rightarrow> Detail list \<Rightarrow> fstate" where
  "detailLoop re entry change s [] = s"
| "detailLoop re entry change s (detail # rest) =
     detailLoop re entry change
       (if Matches detail re then appendDetail s entry change detail else s) rest"

primrec changeLoop :: "(string \<Rightarrow> bool) \<Rightarrow> Entry \<Rightarrow> fstate \<Rightarrow> Change list \<Rightarrow> fstate" where
  "changeLoop re entry s [] = s"
| "changeLoop re entry s (change # rest) =
     changeLoop re entry
       (detailLoop re entry change
          (if re (Summary change) then appendChange s entry change
           else s\<lparr>matchedChange := False\<rparr>)
          (Details change))
       rest"

primrec entryLoop :: "(string \<Rightarrow> bool) \<Rightarrow> fstate \<Rightarrow> Entry list \<Rightarrow> fstate" where
  "entryLoop re s [] = s"
| "entryLoop re s (entry # rest) =
     entryLoop re (changeLoop re entry (s\<lparr>matchedEntry := False\<rparr>) (Changes entry)) rest"

text \<open>The error result of \<open>filterEntries\<close> is nil on its only return path.\<close>

definition filterEntries :: "Entry list \<Rightarrow> (string \<Rightarrow> bool) \<Rightarrow> Entry list \<times> error option" where
  "filterEntries entries re =
     (matchedEntries
        (entryLoop re \<lparr>matchedEntries = [], matchedEntry = False, matchedChange = False\<rparr>
           entries),
      None)"

subsection \<open>What the filter computes\<close>

definition keeps :: "(string \<Rightarrow> bool) \<Rightarrow> Change \<Rightarrow> bool" where
  "keeps re c = (re (Summary c) \<or> list_ex (\<lambda>d. Matches d re) (Details c))"

definition keptChange :: "(string \<Rightarrow> bool) \<Rightarrow> Change \<Rightarrow> Change" where
  "keptChange re c = \<lparr>Summary = Summary c, Details = filter (\<lambda>d. Matches d re) (Details c)\<rparr>"

definition keptChanges :: "(string \<Rightarrow> bool) \<Rightarrow> Entry \<Rightarrow> Change list" where
  "keptChanges re e = map (keptChange re) (filter (keeps re) (Changes e))"

definition keptEntries :: "(string \<Rightarrow> bool) \<Rightarrow> Entry list \<Rightarrow> Entry list" where
  "keptEntries re es =
     map (\<lambda>e. e\<lparr>Changes := keptChanges re e\<rparr>) (filter (\<lambda>e. keptChanges re e \<noteq> []) es)"

definition header :: "Entry \<Rightarrow> Entry" where
  "header e = \<lparr>Package = Package e, Version = Version e,
     Distributions = Distributions e, Metadata = Metadata e,
     MaintainerName = MaintainerName e, EmailAddress = EmailAddress e,
     Date = Date e, Changes = []\<rparr>"

definition target :: "fstate \<Rightarrow> Entry \<Rightarrow> Entry list" where
  "target s e = (if matchedEntry s then matchedEntries s else matchedEntries s @ [header e])"

text \<open>
  The regular expression of a literal word (the pattern \<open>detail\<close>, say) matches the
  texts that contain the word.
\<close>

definition HasPrefix :: "string \<Rightarrow> string \<Rightarrow> bool" where
  "HasPrefix s prefix = (take (length prefix) s = prefix)"

primrec Contains :: "string \<Rightarrow> string \<Rightarrow> bool" where
  "Contains [] substr = (substr = [])"
| "Contains (c # s) substr = (HasPrefix (c # s) substr \<or> Contains s substr)"

definition matchLiteral :: "string \<Rightarrow> string \<Rightarrow> bool" where
  "matchLiteral word s = Contains s word"

section \<open>The parser\<close>

subsection \<open>The two line patterns\<close>

text \<open>
  \<open>entryLineRegex\<close> is \<^verbatim>\<open>^([^ ]+) +\(([^)]+)\) +([^;]+); +(.*)\<close>, and
  \<open>FindStringSubmatch\<close> returns the leftmost match, each repetition taking as much as
  the rest of the pattern allows. The pattern is anchored at the start of the text, so
  the match is found by one scan from the left:
  \<^item> group 1 cannot hold a space and is followed by one, so it is the longest prefix
    without a space, and the spaces after it are all taken;
  \<^item> group 2 cannot hold \<open>)\<close> and is followed by one;
  \<^item> group 3 cannot hold \<open>;\<close> and is followed by one, so it ends at the first \<open>;\<close>
    after the closing parenthesis. The spaces before it are taken first; when nothing
    but spaces stands before the \<open>;\<close>, the repetition gives the last space back and
    group 3 is that one space;
  \<^item> the spaces after the \<open>;\<close> are all taken, and group 4 runs to the end of the text or
    to the first newline (\<open>.\<close> does not match a newline).
  Each class is the complement of one ASCII character, so matching bytes and matching
  UTF-8 runes agree. The result is \<open>None\<close> where the source gets \<open>nil\<close>, and otherwise the
  four groups \<open>m[1]\<close> to \<open>m[4]\<close>.
\<close>

definition entryLineRegex :: "string \<Rightarrow> (string \<times> string \<times> string \<times> string) option" where
  "entryLineRegex line =
     (let m1 = takeWhile (\<lambda>c. c \<noteq> CHR '' '') line;
          r1 = dropWhile (\<lambda>c. c \<noteq> CHR '' '') line;
          r2 = dropWhile (\<lambda>c. c = CHR '' '') r1
      in if m1 = [] \<or> r1 = [] \<or> r2 = [] \<or> hd r2 \<noteq> CHR ''('' then None
         else
           let r3 = tl r2;
               m2 = takeWhile (\<lambda>c. c \<noteq> CHR '')'') r3;
               r4 = dropWhile (\<lambda>c. c \<noteq> CHR '')'') r3
           in if m2 = [] \<or> r4 = [] then None
              else
                let r5 = tl r4;
                    s = takeWhile (\<lambda>c. c \<noteq> CHR '';'') r5;
                    r6 = dropWhile (\<lambda>c. c \<noteq> CHR '';'') r5;
                    k = length (takeWhile (\<lambda>c. c = CHR '' '') s);
                    t = dropWhile (\<lambda>c. c = CHR '' '') s
                in if r6 = [] \<or> k = 0 \<or> (t = [] \<and> k < 2) then None
                   else
                     let m3 = (if t = [] then '' '' else t);
                         r7 = tl r6
                     in if takeWhile (\<lambda>c. c = CHR '' '') r7 = [] then None
                        else Some (m1, m2, m3,
                               takeWhile (\<lambda>c. c \<noteq> LF) (dropWhile (\<lambda>c. c = CHR '' '') r7)))"

text \<open>
  \<open>maintainerLineRegex\<close> is \<^verbatim>\<open>^ -- ([^<]+) +<([^>]+)> +(.*)\<close>. Group 1 cannot hold
  \<open><\<close>, so the text between the prefix and the first \<open><\<close> is shared by group 1 and the
  spaces after it: group 1 takes all of it but the one space that the repetition needs,
  which must be its last character. Group 2 cannot hold \<open>>\<close> and is followed by one; the
  spaces after it are all taken, and group 3 runs to the end or to the first newline.
\<close>

definition maintainerLineRegex :: "string \<Rightarrow> (string \<times> string \<times> string) option" where
  "maintainerLineRegex line =
     (if \<not> HasPrefix line maintainerLinePrefix then None
      else
        let r0 = drop (length maintainerLinePrefix) line;
            s = takeWhile (\<lambda>c. c \<noteq> CHR ''<'') r0;
            r1 = dropWhile (\<lambda>c. c \<noteq> CHR ''<'') r0
        in if r1 = [] \<or> length s < 2 \<or> last s \<noteq> CHR '' '' then None
           else
             let r2 = tl r1;
                 m2 = takeWhile (\<lambda>c. c \<noteq> CHR ''>'') r2;
                 r3 = dropWhile (\<lambda>c. c \<noteq> CHR ''>'') r2
             in if m2 = [] \<or> r3 = [] then None
                else
                  let r4 = tl r3
                  in if takeWhile (\<lambda>c. c = CHR '' '') r4 = [] then None
                     else Some (butlast s, m2,
                            takeWhile (\<lambda>c. c \<noteq> LF) (dropWhile (\<lambda>c. c = CHR '' '') r4)))"

definition parseEntryLine :: "string \<Rightarrow> error + Entry" where
  "parseEntryLine line =
     (case entryLineRegex line of
        None \<Rightarrow> Inl (FormatError (''invalid format entry line: '' @ line))
      | Some (m1, m2, m3, m4) \<Rightarrow>
          Inr \<lparr>Package = m1, Version = m2, Distributions = m3, Metadata = m4,
               MaintainerName = [], EmailAddress = [], Date = zeroTime, Changes = []\<rparr>)"

text \<open>
  \<open>time.Parse\<close> belongs to Go's standard library. \<open>parseMaintainerLine\<close> takes it as the
  function \<open>tparse\<close>, which is \<open>time.Parse\<close> at the layout \<open>entryDateFormat\<close>: it returns
  the time, or the text of the library's error. The source writes the name and the email
  address into the entry before it parses the date, so the entry comes back in both
  cases, beside the error.
\<close>

definition parseMaintainerLine ::
  "(string \<Rightarrow> string + Time) \<Rightarrow> Entry \<Rightarrow> string \<Rightarrow> Entry \<times> error option" where
  "parseMaintainerLine tparse e line =
     (case maintainerLineRegex line of
        None \<Rightarrow> (e, Some (FormatError (''invalid format maintainer line: '' @ line)))
      | Some (m1, m2, m3) \<Rightarrow>
          (let e1 = e\<lparr>MaintainerName := m1, EmailAddress := m2\<rparr>
           in case tparse m3 of
                Inl err \<Rightarrow> (e1, Some (FormatError (''parse date: '' @ m3 @ '', '' @ err)))
              | Inr d \<Rightarrow> (e1\<lparr>Date := d\<rparr>, None)))"

subsection \<open>The state machine\<close>

text \<open>
  \<open>parseChangelog\<close> keeps the slice \<open>entries\<close>, the pointers \<open>entry\<close>, \<open>change\<close> and
  \<open>detail\<close>, and \<open>state\<close>. \<open>change\<close> is set only by \<open>processChangeLine\<close>, to the address of
  the element just appended to \<open>entry.Changes\<close>, and \<open>detail\<close> only by
  \<open>processDetailHeadLine\<close>, to the address of the element just appended to
  \<open>change.Details\<close>; in the states where they are used they address the last change of
  the entry and the last detail of that change. So the in-progress entry is one value,
  and a write through \<open>change\<close> or \<open>detail\<close> is a write to its last change or to the last
  detail of its last change. Where no such element exists the pointer would be nil (or
  left over from an earlier entry); the model gives \<open>NilDereference\<close> there, and
  \<open>processLine_no_panic\<close> below shows that the state machine never gets there.
\<close>

record pstate =
  entries :: "Entry list"
  entry :: "Entry option"
  state :: parseState

definition processChangeLine :: "pstate \<Rightarrow> string \<Rightarrow> error + pstate" where
  "processChangeLine st line =
     (case entry st of
        None \<Rightarrow> Inl NilDereference
      | Some e \<Rightarrow>
          Inr (st\<lparr>entry := Some (e\<lparr>Changes := Changes e @
                       [\<lparr>Summary = drop (length changePrefix) line, Details = []\<rparr>]\<rparr>),
                  state := parseStateInChange\<rparr>))"

definition processDetailHeadLine :: "pstate \<Rightarrow> string \<Rightarrow> error + pstate" where
  "processDetailHeadLine st line =
     (case entry st of
        None \<Rightarrow> Inl NilDereference
      | Some e \<Rightarrow>
          if Changes e = [] then Inl NilDereference
          else Inr (st\<lparr>entry := Some (e\<lparr>Changes :=
                          upd_last (\<lambda>c. c\<lparr>Details := Details c @
                              [\<lparr>Lines = [drop (length detailHeadPrefix) line]\<rparr>]\<rparr>)
                            (Changes e)\<rparr>),
                       state := parseStateInDetail\<rparr>))"

definition processDetailTailLine :: "pstate \<Rightarrow> string \<Rightarrow> error + pstate" where
  "processDetailTailLine st line =
     (case entry st of
        None \<Rightarrow> Inl NilDereference
      | Some e \<Rightarrow>
          if Changes e = [] \<or> Details (last (Changes e)) = [] then Inl NilDereference
          else Inr (st\<lparr>entry := Some (e\<lparr>Changes :=
                          upd_last (\<lambda>c. c\<lparr>Details :=
                              upd_last (\<lambda>d. d\<lparr>Lines := Lines d @
                                  [drop (length detailTailPrefix) line]\<rparr>)
                                (Details c)\<rparr>)
                            (Changes e)\<rparr>)\<rparr>))"

definition processMaintainerLine ::
  "(string \<Rightarrow> string + Time) \<Rightarrow> pstate \<Rightarrow> string \<Rightarrow> error + pstate" where
  "processMaintainerLine tparse st line =
     (case entry st of
        None \<Rightarrow> Inl NilDereference
      | Some e \<Rightarrow>
          (case parseMaintainerLine tparse e line of
             (e1, Some err) \<Rightarrow> Inl err
           | (e1, None) \<Rightarrow>
               Inr (st\<lparr>entries := entries st @ [e1], entry := Some e1,
                       state := parseStateInitial\<rparr>)))"

text \<open>The body of the loop for one non-empty line: the \<open>switch\<close> on the state.\<close>

definition processLine ::
  "(string \<Rightarrow> string + Time) \<Rightarrow> pstate \<Rightarrow> string \<Rightarrow> error + pstate" where
  "processLine tparse st line =
     (case state st of
        parseStateInitial \<Rightarrow>
          (case parseEntryLine line of
             Inl err \<Rightarrow> Inl err
           | Inr e \<Rightarrow> Inr (st\<lparr>entry := Some e, state := parseStateInEntry\<rparr>))
      | parseStateInEntry \<Rightarrow>
          if HasPrefix line changePrefix then processChangeLine st line
          else if HasPrefix line maintainerLinePrefix then processMaintainerLine tparse st line
          else Inr st
      | parseStateInChange \<Rightarrow>
          if HasPrefix line changePrefix then processChangeLine st line
          else if HasPrefix line detailHeadPrefix then processDetailHeadLine st line
          else if HasPrefix line maintainerLinePrefix then processMaintainerLine tparse st line
          else Inr st
      | parseStateInDetail \<Rightarrow>
          if HasPrefix line changePrefix then processChangeLine st line
          else if HasPrefix line detailHeadPrefix then processDetailHeadLine st line
          else if HasPrefix line detailTailPrefix then processDetailTailLine st line
          else if HasPrefix line maintainerLinePrefix then processMaintainerLine tparse st line
          else Inr st)"

text \<open>
  The input is the bytes that the reader delivers, with the error that ends them:
  \<open>None\<close> for \<open>io.EOF\<close>, or the text of another error of the reader.
  \<open>bufio.Reader.ReadString\<close> returns the bytes up to and including the first newline; when
  the input ends before a newline it returns the bytes it has read together with the
  error. The third component says whether the delimiter was found.
\<close>

definition ReadString :: "string \<Rightarrow> string \<times> string \<times> bool" where
  "ReadString inp =
     (if LF \<in> set inp
      then (takeWhile (\<lambda>c. c \<noteq> LF) inp @ [LF], tl (dropWhile (\<lambda>c. c \<noteq> LF) inp), True)
      else (inp, [], False))"

definition TrimRight :: "string \<Rightarrow> string \<Rightarrow> string" where
  "TrimRight s cutset = rev (dropWhile (\<lambda>c. c \<in> set cutset) (rev s))"

function parseLoop ::
  "(string \<Rightarrow> string + Time) \<Rightarrow> string option \<Rightarrow> string \<Rightarrow> pstate \<Rightarrow> Entry list \<times> error option" where
  "parseLoop tparse failure inp st =
     (case ReadString inp of
        (line0, rest, found) \<Rightarrow>
          if \<not> found then
            (case failure of
               None \<Rightarrow> (entries st, None)
             | Some msg \<Rightarrow> ([], Some (ReadError msg)))
          else
            let line = TrimRight line0 [LF]
            in if length line = 0 then parseLoop tparse failure rest st
               else (case processLine tparse st line of
                       Inl err \<Rightarrow> ([], Some err)
                     | Inr st1 \<Rightarrow> parseLoop tparse failure rest st1))"
  by pat_completeness auto
termination
  apply (relation "measure (\<lambda>(tparse, failure, inp, st). length inp)")
    apply simp
   apply (clarsimp simp: ReadString_def split: if_splits)
   apply (rule order.strict_trans2 [OF _ length_dropWhile_le [of "\<lambda>c. c \<noteq> LF"]])
   apply simp
  apply (clarsimp simp: ReadString_def split: if_splits)
  apply (rule order.strict_trans2 [OF _ length_dropWhile_le [of "\<lambda>c. c \<noteq> LF"]])
  apply simp
  done

definition parseChangelog ::
  "(string \<Rightarrow> string + Time) \<Rightarrow> string \<times> string option \<Rightarrow> Entry list \<times> error option" where
  "parseChangelog tparse r =
     parseLoop tparse (snd r) (fst r)
       \<lparr>entries = [], entry = None, state = parseStateInitial\<rparr>"

text \<open>
  What holds of the variables whenever the loop reads a line: outside the initial state
  an entry is in progress; in the state \<open>InChange\<close> it has a change, and in the state
  \<open>InDetail\<close> its last change has a detail.
\<close>

definition stateInv :: "pstate \<Rightarrow> bool" where
  "stateInv st =
     (case entry st of
        None \<Rightarrow> state st = parseStateInitial
      | Some e \<Rightarrow>
          (state st = parseStateInChange \<longrightarrow> Changes e \<noteq> [])
          \<and> (state st = parseStateInDetail \<longrightarrow>
               Changes e \<noteq> [] \<and> Details (last (Changes e)) \<noteq> []))"

section \<open>Rendering\<close>

text \<open>The loop of \<open>Entry.String\<close> over the lines of one detail, \<open>i\<close> being the index.\<close>

primrec detailLines :: "nat \<Rightarrow> string list \<Rightarrow> string" where
  "detailLines i [] = []"
| "detailLines i (line # rest) =
     (if i > 0 then detailTailPrefix else detailHeadPrefix) @ line @ [LF]
       @ detailLines (Suc i) rest"

text \<open>
  \<open>Time.Format\<close> belongs to Go's standard library; \<open>Entry.String\<close> takes it as the
  function \<open>tformat\<close>, which is \<open>Format\<close> at the layout \<open>entryDateFormat\<close>.
\<close>

definition Entry_String :: "(Time \<Rightarrow> string) \<Rightarrow> Entry \<Rightarrow> string" where
  "Entry_String tformat e =
     Package e @ '' ('' @ Version e @ '') '' @ Distributions e @ ''; '' @ Metadata e @ [LF]
     @ concat (map (\<lambda>change. changePrefix @ Summary change @ [LF]
                      @ concat (map (\<lambda>detail. detailLines 0 (Lines detail)) (Details change)))
                (Changes e))
     @ maintainerLinePrefix @ MaintainerName e @ '' <'' @ EmailAddress e @ ''> ''
     @ tformat (Date e)"

text \<open>
  What \<open>run\<close> writes to standard output for the entries it prints: a blank line before
  every entry but the first, then the rendered entry and a newline.
\<close>

primrec printEntries :: "(Time \<Rightarrow> string) \<Rightarrow> nat \<Rightarrow> Entry list \<Rightarrow> string" where
  "printEntries tformat i [] = []"
| "printEntries tformat i (e # rest) =
     (if i > 0 then [LF] else []) @ Entry_String tformat e @ [LF]
       @ printEntries tformat (Suc i) rest"

section \<open>Go's date layout\<close>

text \<open>
  A model of \<open>time.Parse\<close> and \<open>Time.Format\<close> of Go's standard library at the one layout
  the program uses, \<open>Mon, 02 Jan 2006 15:04:05 -0700\<close>. The general theorems below hold
  for every pair of functions in their place; this model serves the concrete inputs.
  It follows the library's \<open>parse\<close>: the layout is cut into the elements \<open>Mon\<close>, \<open>02\<close>,
  \<open>Jan\<close>, \<open>2006\<close>, \<open>15\<close>, \<open>04\<close>, \<open>05\<close>, \<open>-0700\<close> and the literal text between them; a space
  of the layout stands for any run of spaces of the value; names are matched without
  regard to case; the weekday is read and ignored; the hour may have one digit; a
  fraction of a second may follow the seconds; and the day is checked against the
  month at the end. The error text is the one of \<open>ParseError.Error\<close>. Its \<open>quote\<close>
  walks the runes of the value and writes every byte of a rune below \<open>0x20\<close> or from
  \<open>0x80\<close> up (an invalid byte counts as a rune of its own) as \<open>\xNN\<close> in lower-case
  hexadecimal, a backslash before \<open>"\<close> and before a backslash, and every other byte as
  it is; since every byte from \<open>0x80\<close> up belongs to such a rune, this is a
  translation byte by byte.
\<close>

definition isDigit :: "char \<Rightarrow> bool" where
  "isDigit c = (48 \<le> (of_char c :: nat) \<and> (of_char c :: nat) \<le> 57)"

definition digitVal :: "char \<Rightarrow> nat" where
  "digitVal c = of_char c - 48"

definition foldCase :: "char \<Rightarrow> nat" where
  "foldCase c = (let n = of_char c in if (n div 32) mod 2 = 0 then n + 32 else n)"

definition matchChar :: "char \<Rightarrow> char \<Rightarrow> bool" where
  "matchChar c1 c2 =
     (c1 = c2 \<or> (foldCase c1 = foldCase c2 \<and> 97 \<le> foldCase c1 \<and> foldCase c1 \<le> 122))"

definition matchName :: "string \<Rightarrow> string \<Rightarrow> bool" where
  "matchName s1 s2 = (length s1 = length s2 \<and> list_all2 matchChar s1 s2)"

primrec lookup_loop :: "nat \<Rightarrow> string list \<Rightarrow> string \<Rightarrow> (nat \<times> string) option" where
  "lookup_loop i [] val = None"
| "lookup_loop i (v # tab) val =
     (if length val \<ge> length v \<and> matchName (take (length v) val) v
      then Some (i, drop (length v) val)
      else lookup_loop (Suc i) tab val)"

definition lookup :: "string list \<Rightarrow> string \<Rightarrow> (nat \<times> string) option" where
  "lookup tab val = lookup_loop 0 tab val"

definition shortDayNames :: "string list" where
  "shortDayNames = [''Sun'', ''Mon'', ''Tue'', ''Wed'', ''Thu'', ''Fri'', ''Sat'']"

definition shortMonthNames :: "string list" where
  "shortMonthNames = [''Jan'', ''Feb'', ''Mar'', ''Apr'', ''May'', ''Jun'', ''Jul'', ''Aug'',
     ''Sep'', ''Oct'', ''Nov'', ''Dec'']"

definition getnum :: "string \<Rightarrow> bool \<Rightarrow> (nat \<times> string) option" where
  "getnum s fixed =
     (case s of
        [] \<Rightarrow> None
      | c0 # s1 \<Rightarrow>
          if \<not> isDigit c0 then None
          else (case s1 of
                  [] \<Rightarrow> if fixed then None else Some (digitVal c0, s1)
                | c1 # s2 \<Rightarrow>
                    if \<not> isDigit c1 then (if fixed then None else Some (digitVal c0, s1))
                    else Some (digitVal c0 * 10 + digitVal c1, s2)))"

definition digitsVal :: "string \<Rightarrow> nat" where
  "digitsVal s = foldl (\<lambda>n c. n * 10 + digitVal c) 0 s"

text \<open>
  \<open>skip\<close> consumes the literal text \<open>prefix\<close> of the layout from the value; it returns
  the rest of the value and whether it succeeded.
\<close>

function skip :: "string \<Rightarrow> string \<Rightarrow> string \<times> bool" where
  "skip v [] = (v, True)"
| "skip v (p # prefix) =
     (if p = CHR '' '' then
        (if v \<noteq> [] \<and> hd v \<noteq> CHR '' '' then (v, False)
         else skip (dropWhile (\<lambda>c. c = CHR '' '') v) (dropWhile (\<lambda>c. c = CHR '' '') prefix))
      else if v = [] \<or> hd v \<noteq> p then (v, False)
      else skip (tl v) prefix)"
  by pat_completeness auto
termination
  by (relation "measure (\<lambda>(v, prefix). length prefix)")
    (simp_all add: less_Suc_eq_le length_dropWhile_le)

definition entryDateFormat :: string where
  "entryDateFormat = ''Mon, 02 Jan 2006 15:04:05 -0700''"

definition lowerhex :: string where
  "lowerhex = ''0123456789abcdef''"

definition quoteByte :: "char \<Rightarrow> string" where
  "quoteByte c =
     (let n = (of_char c :: nat)
      in if n \<ge> 128 \<or> n < 32 then
           [CHR 0x5C, CHR ''x'', lowerhex ! (n div 16), lowerhex ! (n mod 16)]
         else if c = CHR 0x22 \<or> c = CHR 0x5C then [CHR 0x5C, c]
         else [c])"

definition quote :: "string \<Rightarrow> string" where
  "quote s = [CHR 0x22] @ concat (map quoteByte s) @ [CHR 0x22]"

definition cannotParse :: "string \<Rightarrow> string \<Rightarrow> string \<Rightarrow> string" where
  "cannotParse avalue valueElem layoutElem =
     ''parsing time '' @ quote avalue @ '' as '' @ quote entryDateFormat @ '': cannot parse ''
       @ quote valueElem @ '' as '' @ quote layoutElem"

definition outOfRange :: "string \<Rightarrow> string \<Rightarrow> string" where
  "outOfRange avalue what = ''parsing time '' @ quote avalue @ '': '' @ what @ '' out of range''"

definition isLeap :: "int \<Rightarrow> bool" where
  "isLeap y = (y mod 4 = 0 \<and> (y mod 100 \<noteq> 0 \<or> y mod 400 = 0))"

definition daysIn :: "nat \<Rightarrow> int \<Rightarrow> nat" where
  "daysIn m y =
     (if m = 2 then (if isLeap y then 29 else 28)
      else if m = 4 \<or> m = 6 \<or> m = 9 \<or> m = 11 then 30 else 31)"

text \<open>The elements of the layout, in order; each takes the value that is left.\<close>

definition parseZone :: "string \<Rightarrow> string \<Rightarrow> Time \<Rightarrow> string + Time" where
  "parseZone avalue v t =
     (if length v < 5 then Inl (cannotParse avalue v ''-0700'')
      else
        let h = getnum (take 2 (drop 1 v)) True;
            m = (if h = None then None else getnum (take 2 (drop 3 v)) True);
            hr = (case h of None \<Rightarrow> 0 | Some (n, _) \<Rightarrow> n);
            mm = (case m of None \<Rightarrow> 0 | Some (n, _) \<Rightarrow> n)
        in if mm > 60 then Inl (outOfRange avalue ''time zone offset minute'')
           else if hr > 24 then Inl (outOfRange avalue ''time zone offset hour'')
           else if m = None \<or> (hd v \<noteq> CHR ''+'' \<and> hd v \<noteq> CHR ''-'') then
             Inl (cannotParse avalue v ''-0700'')
           else if drop 5 v \<noteq> [] then
             Inl (''parsing time '' @ quote avalue @ '': extra text: '' @ quote (drop 5 v))
           else if day t < 1 \<or> day t > daysIn (month t) (year t) then
             Inl (outOfRange avalue ''day'')
           else
             Inr (t\<lparr>zoneOffset :=
                    (if hd v = CHR ''-'' then - int ((hr * 60 + mm) * 60)
                     else int ((hr * 60 + mm) * 60))\<rparr>))"

definition parseFraction :: "string \<Rightarrow> nat \<times> string" where
  "parseFraction v =
     (if length v \<ge> 2 \<and> (hd v = CHR ''.'' \<or> hd v = CHR '','') \<and> isDigit (v ! 1)
      then (let ds = takeWhile isDigit (tl v);
                used = take 9 ds
            in (digitsVal used * 10 ^ (9 - length used), drop (length ds) (tl v)))
      else (0, v))"

definition parseClock :: "string \<Rightarrow> string \<Rightarrow> Time \<Rightarrow> string + Time" where
  "parseClock avalue v t =
     (case getnum v False of
        None \<Rightarrow> Inl (cannotParse avalue v ''15'')
      | Some (hh, v1) \<Rightarrow>
          if 24 \<le> hh then Inl (outOfRange avalue ''hour'')
          else (case skip v1 '':'' of
             (v2, False) \<Rightarrow> Inl (cannotParse avalue v2 '':'')
           | (v2, True) \<Rightarrow>
               (case getnum v2 True of
                  None \<Rightarrow> Inl (cannotParse avalue v2 ''04'')
                | Some (mi, v3) \<Rightarrow>
                    if 60 \<le> mi then Inl (outOfRange avalue ''minute'')
                    else (case skip v3 '':'' of
                       (v4, False) \<Rightarrow> Inl (cannotParse avalue v4 '':'')
                     | (v4, True) \<Rightarrow>
                         (case getnum v4 True of
                            None \<Rightarrow> Inl (cannotParse avalue v4 ''05'')
                          | Some (ss, v5) \<Rightarrow>
                              if 60 \<le> ss then Inl (outOfRange avalue ''second'')
                              else (case parseFraction v5 of
                                 (ns, v6) \<Rightarrow>
                                   (case skip v6 '' '' of
                                      (v7, False) \<Rightarrow> Inl (cannotParse avalue v7 '' '')
                                    | (v7, True) \<Rightarrow>
                                        parseZone avalue v7
                                          (t\<lparr>hour := hh, minute := mi, second := ss,
                                              nsec := ns\<rparr>))))))))"

definition time_Parse :: "string \<Rightarrow> string + Time" where
  "time_Parse avalue =
     (case lookup shortDayNames avalue of
        None \<Rightarrow> Inl (cannotParse avalue avalue ''Mon'')
      | Some (_, v1) \<Rightarrow>
          (case skip v1 '', '' of
             (v2, False) \<Rightarrow> Inl (cannotParse avalue v2 '', '')
           | (v2, True) \<Rightarrow>
               (case getnum v2 True of
                  None \<Rightarrow> Inl (cannotParse avalue v2 ''02'')
                | Some (dd, v3) \<Rightarrow>
                    (case skip v3 '' '' of
                       (v4, False) \<Rightarrow> Inl (cannotParse avalue v4 '' '')
                     | (v4, True) \<Rightarrow>
                         (case lookup shortMonthNames v4 of
                            None \<Rightarrow> Inl (cannotParse avalue v4 ''Jan'')
                          | Some (mo, v5) \<Rightarrow>
                              (case skip v5 '' '' of
                                 (v6, False) \<Rightarrow> Inl (cannotParse avalue v6 '' '')
                               | (v6, True) \<Rightarrow>
                                   if length v6 < 4 \<or> \<not> list_all isDigit (take 4 v6)
                                   then Inl (cannotParse avalue v6 ''2006'')
                                   else (case skip (drop 4 v6) '' '' of
                                      (v7, False) \<Rightarrow> Inl (cannotParse avalue v7 '' '')
                                    | (v7, True) \<Rightarrow>
                                        parseClock avalue v7
                                          \<lparr>year = int (digitsVal (take 4 v6)),
                                           month = Suc mo, day = dd, hour = 0, minute = 0,
                                           second = 0, nsec = 0, zoneOffset = 0\<rparr>)))))))"

text \<open>
  \<open>Format\<close>: the weekday is computed from the date (day 0 is Sunday), the numbers are
  padded with zeros to their width, and the zone is printed from its offset in minutes.
\<close>

definition weekdayOf :: "int \<Rightarrow> nat \<Rightarrow> nat \<Rightarrow> nat" where
  "weekdayOf y m d =
     (let y1 = (if m \<le> 2 then y - 1 else y);
          era = y1 div 400;
          yoe = y1 - era * 400;
          doy = (153 * (if m > 2 then int m - 3 else int m + 9) + 2) div 5 + int d - 1;
          doe = yoe * 365 + yoe div 4 - yoe div 100 + doy;
          days = era * 146097 + doe - 719468
      in nat ((days + 4) mod 7))"

definition digitChar :: "nat \<Rightarrow> char" where
  "digitChar n = ''0123456789'' ! n"

fun digitsOf :: "nat \<Rightarrow> string" where
  "digitsOf n = (if n < 10 then [digitChar n]
                 else digitsOf (n div 10) @ [digitChar (n mod 10)])"

definition appendInt :: "int \<Rightarrow> nat \<Rightarrow> string" where
  "appendInt x width =
     (let ds = digitsOf (nat \<bar>x\<bar>)
      in (if x < 0 then ''-'' else []) @ replicate (width - length ds) (CHR ''0'') @ ds)"

definition time_Format :: "Time \<Rightarrow> string" where
  "time_Format t =
     (let zone = (if zoneOffset t < 0 then - ((- zoneOffset t) div 60) else zoneOffset t div 60)
      in shortDayNames ! weekdayOf (year t) (month t) (day t) @ '', ''
         @ appendInt (int (day t)) 2 @ '' ''
         @ shortMonthNames ! (month t - 1) @ '' ''
         @ appendInt (year t) 4 @ '' ''
         @ appendInt (int (hour t)) 2 @ '':''
         @ appendInt (int (minute t)) 2 @ '':''
         @ appendInt (int (second t)) 2 @ '' ''
         @ (if zone < 0 then ''-'' else ''+'')
         @ appendInt (\<bar>zone\<bar> div 60) 2 @ appendInt (\<bar>zone\<bar> mod 60) 2)"

section \<open>What the parser guarantees of an entry\<close>

text \<open>
  The shape of the fields of an entry that the parser returns: the groups of the two
  line patterns exclude their delimiters, no text holds a newline, and every detail has
  a line.
\<close>

definition wfChanges :: "Change list \<Rightarrow> bool" where
  "wfChanges cs =
     (\<forall>c\<in>set cs. LF \<notin> set (Summary c)
        \<and> (\<forall>d\<in>set (Details c). Lines d \<noteq> [] \<and> (\<forall>l\<in>set (Lines d). LF \<notin> set l)))"

definition wfHeader :: "Entry \<Rightarrow> bool" where
  "wfHeader e =
     (Package e \<noteq> [] \<and> CHR '' '' \<notin> set (Package e) \<and> LF \<notin> set (Package e)
      \<and> Version e \<noteq> [] \<and> CHR '')'' \<notin> set (Version e) \<and> LF \<notin> set (Version e)
      \<and> Distributions e \<noteq> [] \<and> CHR '';'' \<notin> set (Distributions e)
      \<and> LF \<notin> set (Distributions e)
      \<and> (Distributions e = '' '' \<or> hd (Distributions e) \<noteq> CHR '' '')
      \<and> LF \<notin> set (Metadata e)
      \<and> (Metadata e = [] \<or> hd (Metadata e) \<noteq> CHR '' ''))"

definition wfTrailer :: "Entry \<Rightarrow> bool" where
  "wfTrailer e =
     (MaintainerName e \<noteq> [] \<and> CHR ''<'' \<notin> set (MaintainerName e)
      \<and> LF \<notin> set (MaintainerName e)
      \<and> EmailAddress e \<noteq> [] \<and> CHR ''>'' \<notin> set (EmailAddress e)
      \<and> LF \<notin> set (EmailAddress e))"

definition wfEntry :: "Entry \<Rightarrow> bool" where
  "wfEntry e = (wfHeader e \<and> wfTrailer e \<and> wfChanges (Changes e))"

text \<open>The same of the variables of the loop: the output and the entry in progress.\<close>

definition wfState :: "pstate \<Rightarrow> bool" where
  "wfState st =
     ((\<forall>e\<in>set (entries st). wfEntry e)
      \<and> (case entry st of
           None \<Rightarrow> True
         | Some e \<Rightarrow> state st \<noteq> parseStateInitial \<longrightarrow> wfHeader e \<and> wfChanges (Changes e)))"

section \<open>Example inputs\<close>

text \<open>
  The scenario of the specification: one entry with two changes, blank lines between
  them, and two spaces before the date as in Debian changelogs.
\<close>

definition exampleText :: string where
  "exampleText =
     ''linux (5.15.0-25.25) jammy; urgency=medium'' @ [LF]
     @ [LF]
     @ ''  * Change A'' @ [LF]
     @ ''    - detail line 1'' @ [LF]
     @ ''      continuation'' @ [LF]
     @ [LF]
     @ ''  * Change B'' @ [LF]
     @ [LF]
     @ '' -- Ubuntu Kernel Team <kernel-team@lists.ubuntu.com>  Thu, 05 May 2022 10:00:00 +0000''
     @ [LF]"

definition exampleDate :: Time where
  "exampleDate = \<lparr>year = 2022, month = 5, day = 5, hour = 10, minute = 0, second = 0,
     nsec = 0, zoneOffset = 0\<rparr>"

definition exampleEntry :: Entry where
  "exampleEntry =
     \<lparr>Package = ''linux'', Version = ''5.15.0-25.25'', Distributions = ''jammy'',
      Metadata = ''urgency=medium'', MaintainerName = ''Ubuntu Kernel Team'',
      EmailAddress = ''kernel-team@lists.ubuntu.com'', Date = exampleDate,
      Changes =
        [\<lparr>Summary = ''Change A'',
          Details = [\<lparr>Lines = [''detail line 1'', ''continuation'']\<rparr>]\<rparr>,
         \<lparr>Summary = ''Change B'', Details = []\<rparr>]\<rparr>"

text \<open>The same text as \<open>Entry.String\<close> and \<open>run\<close> lay it out.\<close>

definition canonicalText :: string where
  "canonicalText =
     ''linux (5.15.0-25.25) jammy; urgency=medium'' @ [LF]
     @ ''  * Change A'' @ [LF]
     @ ''    - detail line 1'' @ [LF]
     @ ''      continuation'' @ [LF]
     @ ''  * Change B'' @ [LF]
     @ '' -- Ubuntu Kernel Team <kernel-team@lists.ubuntu.com> Thu, 05 May 2022 10:00:00 +0000''
     @ [LF]"

text \<open>An entry with a header and a trailer only.\<close>

definition exampleHeaderLine :: string where
  "exampleHeaderLine = ''linux (5.15.0-25.25) jammy; urgency=medium''"

definition exampleTrailerLine :: string where
  "exampleTrailerLine =
     '' -- Ubuntu Kernel Team <kernel-team@lists.ubuntu.com>  Thu, 05 May 2022 10:00:00 +0000''"

definition headerOnlyText :: string where
  "headerOnlyText = exampleHeaderLine @ [LF] @ exampleTrailerLine @ [LF]"

definition headerOnlyEntry :: Entry where
  "headerOnlyEntry = exampleEntry\<lparr>Changes := []\<rparr>"

text \<open>An entry whose first change has a detail that matches \<open>detail\<close> and one that does not.\<close>

definition siblingEntry :: Entry where
  "siblingEntry =
     exampleEntry\<lparr>Changes :=
       [\<lparr>Summary = ''Change A'',
         Details = [\<lparr>Lines = [''unrelated'']\<rparr>,
                    \<lparr>Lines = [''detail line 1'', ''continuation'']\<rparr>]\<rparr>,
        \<lparr>Summary = ''Change B'', Details = []\<rparr>]\<rparr>"

definition siblingKeptChange :: Change where
  "siblingKeptChange =
     \<lparr>Summary = ''Change A'',
      Details = [\<lparr>Lines = [''detail line 1'', ''continuation'']\<rparr>]\<rparr>"

definition siblingKept :: Entry where
  "siblingKept = exampleEntry\<lparr>Changes := [siblingKeptChange]\<rparr>"

text \<open>The variables of the parser after the header line of the example.\<close>

definition initialState :: pstate where
  "initialState = \<lparr>entries = [], entry = None, state = parseStateInitial\<rparr>"

definition inEntryState :: pstate where
  "inEntryState =
     \<lparr>entries = [],
      entry = Some (headerOnlyEntry\<lparr>MaintainerName := [], EmailAddress := [],
                Date := zeroTime\<rparr>),
      state = parseStateInEntry\<rparr>"

text \<open>The malformed lines of the specification.\<close>

definition badHeaderLine :: string where
  "badHeaderLine = ''not a valid header''"

definition badDateLine :: string where
  "badDateLine = '' -- A B <a@b.com>  not-a-date''"

definition badDateMessage :: string where
  "badDateMessage = ''parsing time '' @ [CHR 0x22] @ ''not-a-date'' @ [CHR 0x22] @ '' as ''
     @ [CHR 0x22] @ ''Mon, 02 Jan 2006 15:04:05 -0700'' @ [CHR 0x22] @ '': cannot parse ''
     @ [CHR 0x22] @ ''not-a-date'' @ [CHR 0x22] @ '' as '' @ [CHR 0x22] @ ''Mon''
     @ [CHR 0x22]"

section \<open>The filter: proofs\<close>

lemma upd_last_snoc [simp]: "upd_last f (xs @ [x]) = xs @ [f x]"
  by (simp add: upd_last_def)

lemma Matches_loop_iff: "Matches_loop re ls = list_ex re ls"
  by (induction ls) auto

lemma Matches_iff: "Matches d re = list_ex re (Lines d)"
  by (simp add: Matches_def Matches_loop_iff)

lemma detailLoop_set:
  assumes "matchedChange s" "matchedEntries s = pre @ [me]" "Changes me = cs @ [mc]"
  shows "detailLoop re ent chg s ds =
     s\<lparr>matchedEntries := pre @ [me\<lparr>Changes := cs @ [mc\<lparr>Details := Details mc @ filter (\<lambda>d. Matches d re) ds\<rparr>]\<rparr>]\<rparr>"
  using assms
proof (induction ds arbitrary: s me mc)
  case Nil
  then show ?case by simp
next
  case (Cons d ds)
  show ?case
  proof (cases "Matches d re")
    case True
    let ?mc = "mc\<lparr>Details := Details mc @ [d]\<rparr>"
    let ?me = "me\<lparr>Changes := cs @ [?mc]\<rparr>"
    let ?s = "s\<lparr>matchedEntries := pre @ [?me]\<rparr>"
    have step: "appendDetail s ent chg d = ?s"
      using Cons.prems by (simp add: appendDetail_def)
    have "detailLoop re ent chg ?s ds = ?s\<lparr>matchedEntries := pre @ [?me\<lparr>Changes := cs @ [?mc\<lparr>Details := Details ?mc @ filter (\<lambda>d. Matches d re) ds\<rparr>]\<rparr>]\<rparr>"
      by (rule Cons.IH) (use Cons.prems in simp_all)
    then show ?thesis using True step by simp
  next
    case False
    then show ?thesis using Cons.IH [OF Cons.prems] by simp
  qed
qed

lemma appendChange_eq:
  assumes "matchedEntry s \<longrightarrow> matchedEntries s \<noteq> []"
  shows "appendChange s ent chg =
     s\<lparr>matchedEntries := upd_last (\<lambda>me. me\<lparr>Changes := Changes me @ [\<lparr>Summary = Summary chg, Details = []\<rparr>]\<rparr>) (target s ent),
       matchedEntry := True, matchedChange := True\<rparr>"
  using assms by (simp add: appendChange_def target_def header_def Let_def)

lemma target_snoc: 
  assumes "matchedEntry s \<longrightarrow> matchedEntries s \<noteq> []"
  shows "\<exists>pre me. target s ent = pre @ [me]"
  using assms by (cases "matchedEntry s") (auto simp: target_def intro: rev_exhaust[of "matchedEntries s"])

lemma detailLoop_unset_none:
  assumes "\<not> matchedChange s" "filter (\<lambda>d. Matches d re) ds = []"
  shows "detailLoop re ent chg s ds = s"
  using assms by (induction ds) (auto split: if_splits)

lemma detailLoop_unset_some:
  assumes "\<not> matchedChange s" "filter (\<lambda>d. Matches d re) ds \<noteq> []"
    and "matchedEntry s \<longrightarrow> matchedEntries s \<noteq> []"
  shows "detailLoop re ent chg s ds =
     s\<lparr>matchedEntries := upd_last (\<lambda>me. me\<lparr>Changes := Changes me @ [\<lparr>Summary = Summary chg, Details = filter (\<lambda>d. Matches d re) ds\<rparr>]\<rparr>) (target s ent),
       matchedEntry := True, matchedChange := True\<rparr>"
  using assms
proof (induction ds)
  case Nil
  then show ?case by simp
next
  case (Cons d ds)
  show ?case
  proof (cases "Matches d re")
    case False
    then show ?thesis using Cons by simp
  next
    case True
    obtain pre me where t: "target s ent = pre @ [me]"
      using target_snoc [OF Cons.prems(3)] by blast
    let ?c0 = "\<lparr>Summary = Summary chg, Details = []\<rparr>"
    let ?s1 = "s\<lparr>matchedEntries := pre @ [me\<lparr>Changes := Changes me @ [?c0]\<rparr>], matchedEntry := True, matchedChange := True\<rparr>"
    have a: "appendChange s ent chg = ?s1"
      using appendChange_eq [OF Cons.prems(3)] t by simp
    let ?c1 = "\<lparr>Summary = Summary chg, Details = [d]\<rparr>"
    let ?me1 = "me\<lparr>Changes := Changes me @ [?c1]\<rparr>"
    let ?s2 = "s\<lparr>matchedEntries := pre @ [?me1], matchedEntry := True, matchedChange := True\<rparr>"
    have b: "appendDetail s ent chg d = ?s2"
      using Cons.prems(1) a by (simp add: appendDetail_def)
    have "detailLoop re ent chg ?s2 ds =
       ?s2\<lparr>matchedEntries := pre @ [?me1\<lparr>Changes := Changes me @ [?c1\<lparr>Details := Details ?c1 @ filter (\<lambda>d. Matches d re) ds\<rparr>]\<rparr>]\<rparr>"
      by (rule detailLoop_set) simp_all
    then show ?thesis using True b t by simp
  qed
qed

lemma change_step:
  fixes re ent chg s
  assumes "matchedEntry s \<longrightarrow> matchedEntries s \<noteq> []"
  defines "s' \<equiv> detailLoop re ent chg
          (if re (Summary chg) then appendChange s ent chg
           else s\<lparr>matchedChange := False\<rparr>) (Details chg)"
  shows "matchedEntries s' = (if keeps re chg
            then upd_last (\<lambda>me. me\<lparr>Changes := Changes me @ [keptChange re chg]\<rparr>) (target s ent)
            else matchedEntries s)"
    and "matchedEntry s' = (matchedEntry s \<or> keeps re chg)"
proof -
  obtain pre me where t: "target s ent = pre @ [me]"
    using target_snoc [OF assms(1)] by blast
  have k: "keeps re chg = (re (Summary chg) \<or> filter (\<lambda>d. Matches d re) (Details chg) \<noteq> [])"
    by (auto simp: keeps_def list_ex_iff filter_empty_conv)
  show "matchedEntries s' = (if keeps re chg
            then upd_last (\<lambda>me. me\<lparr>Changes := Changes me @ [keptChange re chg]\<rparr>) (target s ent)
            else matchedEntries s)"
  proof (cases "re (Summary chg)")
    case True
    let ?c0 = "\<lparr>Summary = Summary chg, Details = []\<rparr>"
    let ?s1 = "s\<lparr>matchedEntries := pre @ [me\<lparr>Changes := Changes me @ [?c0]\<rparr>], matchedEntry := True, matchedChange := True\<rparr>"
    have a: "appendChange s ent chg = ?s1"
      using appendChange_eq [OF assms(1)] t by simp
    have "detailLoop re ent chg ?s1 (Details chg) =
        ?s1\<lparr>matchedEntries := pre @ [me\<lparr>Changes := Changes me @ [?c0\<lparr>Details := Details ?c0 @ filter (\<lambda>d. Matches d re) (Details chg)\<rparr>]\<rparr>]\<rparr>"
      using detailLoop_set [of ?s1 pre "me\<lparr>Changes := Changes me @ [?c0]\<rparr>" "Changes me" ?c0 re ent chg "Details chg"]
      by simp
    then show ?thesis using True a t k by (simp add: s'_def keptChange_def)
  next
    case False
    show ?thesis
    proof (cases "filter (\<lambda>d. Matches d re) (Details chg) = []")
      case True
      then show ?thesis using False k
        by (simp add: s'_def detailLoop_unset_none)
    next
      case nonempty: False
      have "detailLoop re ent chg (s\<lparr>matchedChange := False\<rparr>) (Details chg) =
         (s\<lparr>matchedChange := False\<rparr>)\<lparr>matchedEntries := upd_last (\<lambda>me. me\<lparr>Changes := Changes me @ [\<lparr>Summary = Summary chg, Details = filter (\<lambda>d. Matches d re) (Details chg)\<rparr>]\<rparr>) (target (s\<lparr>matchedChange := False\<rparr>) ent),
       matchedEntry := True, matchedChange := True\<rparr>"
        by (rule detailLoop_unset_some) (use nonempty assms(1) in simp_all)
      then show ?thesis using False nonempty k
        by (simp add: s'_def keptChange_def target_def)
    qed
  qed
  show "matchedEntry s' = (matchedEntry s \<or> keeps re chg)"
  proof (cases "re (Summary chg)")
    case True
    let ?c0 = "\<lparr>Summary = Summary chg, Details = []\<rparr>"
    let ?s1 = "s\<lparr>matchedEntries := pre @ [me\<lparr>Changes := Changes me @ [?c0]\<rparr>], matchedEntry := True, matchedChange := True\<rparr>"
    have a: "appendChange s ent chg = ?s1"
      using appendChange_eq [OF assms(1)] t by simp
    have "detailLoop re ent chg ?s1 (Details chg) =
        ?s1\<lparr>matchedEntries := pre @ [me\<lparr>Changes := Changes me @ [?c0\<lparr>Details := Details ?c0 @ filter (\<lambda>d. Matches d re) (Details chg)\<rparr>]\<rparr>]\<rparr>"
      using detailLoop_set [of ?s1 pre "me\<lparr>Changes := Changes me @ [?c0]\<rparr>" "Changes me" ?c0 re ent chg "Details chg"]
      by simp
    then show ?thesis using True a k by (simp add: s'_def)
  next
    case False
    show ?thesis
    proof (cases "filter (\<lambda>d. Matches d re) (Details chg) = []")
      case True
      then show ?thesis using False k
        by (simp add: s'_def detailLoop_unset_none)
    next
      case nonempty: False
      have "detailLoop re ent chg (s\<lparr>matchedChange := False\<rparr>) (Details chg) =
         (s\<lparr>matchedChange := False\<rparr>)\<lparr>matchedEntries := upd_last (\<lambda>me. me\<lparr>Changes := Changes me @ [\<lparr>Summary = Summary chg, Details = filter (\<lambda>d. Matches d re) (Details chg)\<rparr>]\<rparr>) (target (s\<lparr>matchedChange := False\<rparr>) ent),
       matchedEntry := True, matchedChange := True\<rparr>"
        by (rule detailLoop_unset_some) (use nonempty assms(1) in simp_all)
      then show ?thesis using False nonempty k
        by (simp add: s'_def)
    qed
  qed
qed


lemma changeLoop_char:
  assumes "matchedEntry s \<longrightarrow> matchedEntries s \<noteq> []"
  shows "matchedEntries (changeLoop re ent s cs) =
           (if filter (keeps re) cs = [] then matchedEntries s
            else upd_last (\<lambda>me. me\<lparr>Changes := Changes me @ map (keptChange re) (filter (keeps re) cs)\<rparr>)
                   (target s ent))
         \<and> matchedEntry (changeLoop re ent s cs) = (matchedEntry s \<or> filter (keeps re) cs \<noteq> [])"
  using assms
proof (induction cs arbitrary: s)
  case Nil
  then show ?case by simp
next
  case (Cons c cs)
  define s' where "s' = detailLoop re ent c
          (if re (Summary c) then appendChange s ent c
           else s\<lparr>matchedChange := False\<rparr>) (Details c)"
  have me: "matchedEntries s' = (if keeps re c
            then upd_last (\<lambda>me. me\<lparr>Changes := Changes me @ [keptChange re c]\<rparr>) (target s ent)
            else matchedEntries s)"
    and fl: "matchedEntry s' = (matchedEntry s \<or> keeps re c)"
    unfolding s'_def using change_step [OF Cons.prems] by blast+
  obtain pre m0 where t: "target s ent = pre @ [m0]"
    using target_snoc [OF Cons.prems] by blast
  have inv: "matchedEntry s' \<longrightarrow> matchedEntries s' \<noteq> []"
    using me fl t Cons.prems by auto
  have step: "changeLoop re ent s (c # cs) = changeLoop re ent s' cs"
    by (simp add: s'_def)
  show ?case
  proof (cases "keeps re c")
    case False
    then have "target s' ent = target s ent"
      using me fl by (simp add: target_def)
    then show ?thesis
      using Cons.IH [OF inv] False me fl step by simp
  next
    case True
    then have ts': "target s' ent = pre @ [m0\<lparr>Changes := Changes m0 @ [keptChange re c]\<rparr>]"
      using me fl t by (simp add: target_def)
    show ?thesis
      using Cons.IH [OF inv] True me fl step t ts' by simp
  qed
qed

lemma header_upd: "(header e)\<lparr>Changes := Changes (header e) @ cs\<rparr> = e\<lparr>Changes := cs\<rparr>"
  by (simp add: header_def)

lemma entryLoop_char:
  "matchedEntries (entryLoop re s es) = matchedEntries s @ keptEntries re es"
proof (induction es arbitrary: s)
  case Nil
  then show ?case by (simp add: keptEntries_def)
next
  case (Cons e es)
  let ?s0 = "s\<lparr>matchedEntry := False\<rparr>"
  have "matchedEntries (changeLoop re e ?s0 (Changes e)) =
          (if keptChanges re e = [] then matchedEntries s
           else matchedEntries s @ [e\<lparr>Changes := keptChanges re e\<rparr>])"
    using changeLoop_char [of ?s0 re e "Changes e"]
    by (simp add: target_def keptChanges_def header_upd)
  then show ?case
    using Cons.IH [of "changeLoop re e ?s0 (Changes e)"]
    by (simp add: keptEntries_def)
qed

lemma filterEntries_char: "filterEntries es re = (keptEntries re es, None)"
  by (simp add: filterEntries_def entryLoop_char)


section \<open>The parser: proofs\<close>

declare parseLoop.simps [simp del]

lemma ReadString_line:
  assumes "LF \<notin> set l"
  shows "ReadString (l @ LF # rest) = (l @ [LF], rest, True)"
proof -
  have all: "\<And>x. x \<in> set l \<Longrightarrow> x \<noteq> LF"
    using assms by auto
  have "takeWhile (\<lambda>c. c \<noteq> LF) (l @ LF # rest) = l"
    using takeWhile_append2 [of l "\<lambda>c. c \<noteq> LF" "LF # rest"] all by simp
  moreover have "dropWhile (\<lambda>c. c \<noteq> LF) (l @ LF # rest) = LF # rest"
    using dropWhile_append2 [of l "\<lambda>c. c \<noteq> LF" "LF # rest"] all by simp
  ultimately show ?thesis
    by (simp add: ReadString_def)
qed

lemma ReadString_eof:
  assumes "LF \<notin> set inp"
  shows "ReadString inp = (inp, [], False)"
  using assms by (simp add: ReadString_def)

lemma TrimRight_line:
  assumes "LF \<notin> set l"
  shows "TrimRight (l @ [LF]) [LF] = l"
proof (cases "rev l")
  case Nil
  then show ?thesis by (simp add: TrimRight_def)
next
  case (Cons c cs)
  then have "c \<in> set l"
    by (metis list.set_intros(1) set_rev)
  then have "c \<noteq> LF"
    using assms by auto
  then have "rev (dropWhile (\<lambda>c. c \<in> set [LF]) (LF # c # cs)) = rev (c # cs)"
    by simp
  then show ?thesis
    using Cons by (simp add: TrimRight_def)
qed

lemma parseLoop_eof:
  assumes "LF \<notin> set inp"
  shows "parseLoop tparse failure inp st =
     (case failure of None \<Rightarrow> (entries st, None) | Some msg \<Rightarrow> ([], Some (ReadError msg)))"
  by (subst parseLoop.simps) (simp add: ReadString_eof [OF assms])

lemma parseLoop_blank:
  "parseLoop tparse failure (LF # rest) st = parseLoop tparse failure rest st"
  using ReadString_line [of "[]" rest] TrimRight_line [of "[]"]
  by (subst parseLoop.simps) simp

lemma parseLoop_line:
  assumes "LF \<notin> set l" and "l \<noteq> []"
  shows "parseLoop tparse failure (l @ LF # rest) st =
     (case processLine tparse st l of
        Inl err \<Rightarrow> ([], Some err)
      | Inr st1 \<Rightarrow> parseLoop tparse failure rest st1)"
  using assms
  by (subst parseLoop.simps) (simp add: ReadString_line TrimRight_line)

lemma Matches_ex: "Matches d re = (\<exists>l\<in>set (Lines d). re l)"
  by (simp add: Matches_iff list_ex_iff)

lemma matchDot_ex: "matchDot s = (\<exists>x\<in>set s. x \<noteq> LF)"
  by (simp add: matchDot_def list_ex_iff)

lemma keeps_ex:
  "keeps re c = (re (Summary c) \<or> (\<exists>d\<in>set (Details c). \<exists>l\<in>set (Lines d). re l))"
  by (simp add: keeps_def list_ex_iff Matches_ex)

lemma keptChange_eq:
  "keptChange re c = \<lparr>Summary = Summary c, Details = filter (\<lambda>d. \<exists>l\<in>set (Lines d). re l) (Details c)\<rparr>"
  by (simp add: keptChange_def Matches_ex)

lemma keptChanges_all:
  assumes "\<forall>c\<in>set (Changes e). re (Summary c) \<and> (\<forall>d\<in>set (Details c). \<exists>l\<in>set (Lines d). re l)"
  shows "keptChanges re e = Changes e"
proof -
  have k: "filter (keeps re) (Changes e) = Changes e"
    using assms by (simp add: keeps_ex)
  have "map (keptChange re) (Changes e) = map (\<lambda>c. c) (Changes e)"
  proof (rule map_cong [OF refl])
    fix c assume "c \<in> set (Changes e)"
    then have "filter (\<lambda>d. \<exists>l\<in>set (Lines d). re l) (Details c) = Details c"
      using assms by simp
    then show "keptChange re c = c"
      by (simp add: keptChange_eq)
  qed
  then show ?thesis
    by (simp add: keptChanges_def k)
qed

lemma keptChanges_none:
  assumes "\<forall>c\<in>set (Changes e). \<not> re (Summary c) \<and> (\<forall>d\<in>set (Details c). \<forall>l\<in>set (Lines d). \<not> re l)"
  shows "keptChanges re e = []"
  using assms by (auto simp: keptChanges_def keeps_ex filter_empty_conv)

lemma keptEntries_append: "keptEntries re (xs @ ys) = keptEntries re xs @ keptEntries re ys"
  by (simp add: keptEntries_def)

subsection \<open>Filtering with the pattern that matches everything\<close>

text \<open>
  C2 as stated, "filtering with the pattern \<open>.\<close> returns a sequence equal to the
  input", fails: the parser accepts an entry that has a header and a trailer only, and
  the filter, which creates an entry of the result only when one of its changes is
  kept, drops it.
\<close>

theorem filterEntries_dot_counterexample:
  "snd (parseChangelog time_Parse (headerOnlyText, None)) = None
   \<and> fst (filterEntries (fst (parseChangelog time_Parse (headerOnlyText, None))) matchDot)
       \<noteq> fst (parseChangelog time_Parse (headerOnlyText, None))"
  by code_simp

text \<open>
  C2, amended: when every summary holds a character other than a newline and every
  detail has a line that holds one (the texts that \<open>.\<close> matches), filtering with \<open>.\<close>
  returns the input without its entries that have no change, each remaining entry with
  every change and every detail unchanged; so it returns the input itself when every
  entry has a change.
\<close>

theorem filterEntries_dot:
  assumes "\<forall>e\<in>set es. \<forall>c\<in>set (Changes e).
             (\<exists>x\<in>set (Summary c). x \<noteq> LF)
             \<and> (\<forall>d\<in>set (Details c). \<exists>l\<in>set (Lines d). \<exists>x\<in>set l. x \<noteq> LF)"
  shows "filterEntries es matchDot = (filter (\<lambda>e. Changes e \<noteq> []) es, None)"
proof -
  have all: "keptChanges matchDot e = Changes e" if "e \<in> set es" for e
    using that assms by (intro keptChanges_all) (simp add: matchDot_ex)
  have "filter (\<lambda>e. keptChanges matchDot e \<noteq> []) es = filter (\<lambda>e. Changes e \<noteq> []) es"
    by (rule filter_cong [OF refl]) (simp add: all)
  moreover have "map (\<lambda>e. e\<lparr>Changes := keptChanges matchDot e\<rparr>) (filter (\<lambda>e. Changes e \<noteq> []) es)
      = map (\<lambda>e. e) (filter (\<lambda>e. Changes e \<noteq> []) es)"
    by (rule map_cong [OF refl]) (simp add: all)
  ultimately show ?thesis
    by (simp add: filterEntries_char keptEntries_def)
qed

theorem filterEntries_dot_witness:
  "filterEntries [exampleEntry, headerOnlyEntry] matchDot = ([exampleEntry], None)"
proof -
  have h: "\<forall>e\<in>set [exampleEntry, headerOnlyEntry]. \<forall>c\<in>set (Changes e).
             (\<exists>x\<in>set (Summary c). x \<noteq> LF)
             \<and> (\<forall>d\<in>set (Details c). \<exists>l\<in>set (Lines d). \<exists>x\<in>set l. x \<noteq> LF)"
    by code_simp
  show ?thesis
    using filterEntries_dot [OF h] by (simp add: exampleEntry_def headerOnlyEntry_def)
qed

subsection \<open>A change appears when its summary or one of its details matches\<close>

text \<open>
  C3: for an entry of the input and a change of it whose summary matches or one of whose
  details has a line that matches, the result holds that entry, with its header and
  trailer fields, and in it that change with its summary and with exactly its matching
  details, in order. This covers the change whose summary does not match and which is
  kept by a detail; the details that do not match are dropped.
\<close>

theorem filterEntries_change_appears:
  assumes "e \<in> set es" and "c \<in> set (Changes e)"
    and "re (Summary c) \<or> (\<exists>d\<in>set (Details c). \<exists>l\<in>set (Lines d). re l)"
  shows "\<exists>e'\<in>set (fst (filterEntries es re)).
           e' = e\<lparr>Changes := Changes e'\<rparr>
           \<and> \<lparr>Summary = Summary c,
               Details = filter (\<lambda>d. \<exists>l\<in>set (Lines d). re l) (Details c)\<rparr> \<in> set (Changes e')"
proof -
  have k: "keeps re c"
    using assms(3) by (simp add: keeps_ex)
  then have in_kept: "keptChange re c \<in> set (keptChanges re e)"
    using assms(2) by (simp add: keptChanges_def)
  then have ne: "keptChanges re e \<noteq> []"
    by auto
  let ?e' = "e\<lparr>Changes := keptChanges re e\<rparr>"
  have "?e' \<in> set (keptEntries re es)"
    using assms(1) ne by (auto simp: keptEntries_def)
  moreover have "?e' = e\<lparr>Changes := Changes ?e'\<rparr>"
    by simp
  moreover have "\<lparr>Summary = Summary c,
      Details = filter (\<lambda>d. \<exists>l\<in>set (Lines d). re l) (Details c)\<rparr> \<in> set (Changes ?e')"
    using in_kept by (simp add: keptChange_eq)
  ultimately show ?thesis
    unfolding filterEntries_char fst_conv by blast
qed

theorem filterEntries_change_appears_witness:
  "\<not> matchLiteral ''detail'' ''Change A''
   \<and> (\<exists>e'\<in>set (fst (filterEntries [siblingEntry] (matchLiteral ''detail''))).
         e' = siblingEntry\<lparr>Changes := Changes e'\<rparr>
         \<and> \<lparr>Summary = ''Change A'',
             Details = [\<lparr>Lines = [''detail line 1'', ''continuation'']\<rparr>]\<rparr> \<in> set (Changes e'))"
proof -
  let ?c = "\<lparr>Summary = ''Change A'',
         Details = [\<lparr>Lines = [''unrelated'']\<rparr>,
                    \<lparr>Lines = [''detail line 1'', ''continuation'']\<rparr>]\<rparr>"
  let ?re = "matchLiteral ''detail''"
  have h1: "siblingEntry \<in> set [siblingEntry]" by simp
  have h2: "?c \<in> set (Changes siblingEntry)" by (simp add: siblingEntry_def)
  have h3: "?re (Summary ?c) \<or> (\<exists>d\<in>set (Details ?c). \<exists>l\<in>set (Lines d). ?re l)"
    by code_simp
  have f: "filter (\<lambda>d. \<exists>l\<in>set (Lines d). ?re l) (Details ?c)
      = [\<lparr>Lines = [''detail line 1'', ''continuation'']\<rparr>]"
    by code_simp
  have n: "\<not> ?re ''Change A''" by code_simp
  show ?thesis
    using filterEntries_change_appears [OF h1 h2 h3] f n by simp
qed

subsection \<open>An entry without a match leaves no trace\<close>

text \<open>
  C4: an entry none of whose summaries and none of whose detail lines match does not
  appear in the result: the result is the one of the input without that entry, and the
  entry filtered alone gives the empty sequence. So a pattern that matches nothing gives
  the empty sequence.
\<close>

theorem filterEntries_no_match_elided:
  "((\<forall>c\<in>set (Changes e). \<not> re (Summary c)
        \<and> (\<forall>d\<in>set (Details c). \<forall>l\<in>set (Lines d). \<not> re l))
     \<longrightarrow> filterEntries (xs @ e # ys) re = filterEntries (xs @ ys) re
         \<and> filterEntries [e] re = ([], None))
   \<and> ((\<forall>s. \<not> re s) \<longrightarrow> filterEntries es re = ([], None))"
proof (intro conjI impI)
  assume a: "\<forall>c\<in>set (Changes e). \<not> re (Summary c)
        \<and> (\<forall>d\<in>set (Details c). \<forall>l\<in>set (Lines d). \<not> re l)"
  have "keptEntries re [e] = []"
    using keptChanges_none [OF a] by (simp add: keptEntries_def)
  then show "filterEntries (xs @ e # ys) re = filterEntries (xs @ ys) re"
    and "filterEntries [e] re = ([], None)"
    using keptEntries_append [of re xs "[e] @ ys"] keptEntries_append [of re "[e]" ys]
    by (simp_all add: filterEntries_char keptEntries_append)
next
  assume a: "\<forall>s. \<not> re s"
  have "keptChanges re x = []" for x
    using a by (intro keptChanges_none) simp
  then show "filterEntries es re = ([], None)"
    by (simp add: filterEntries_char keptEntries_def)
qed

theorem filterEntries_no_match_elided_witness:
  "filterEntries ([siblingEntry] @ headerOnlyEntry # [exampleEntry]) (matchLiteral ''detail'')
     = filterEntries ([siblingEntry] @ [exampleEntry]) (matchLiteral ''detail'')
   \<and> filterEntries [exampleEntry\<lparr>Changes := [\<lparr>Summary = ''Change B'', Details = []\<rparr>]\<rparr>]
        (matchLiteral ''detail'') = ([], None)
   \<and> filterEntries [exampleEntry] (\<lambda>s. False) = ([], None)"
proof -
  let ?b = "exampleEntry\<lparr>Changes := [\<lparr>Summary = ''Change B'', Details = []\<rparr>]\<rparr>"
  have h1: "\<forall>c\<in>set (Changes headerOnlyEntry). \<not> matchLiteral ''detail'' (Summary c)
        \<and> (\<forall>d\<in>set (Details c). \<forall>l\<in>set (Lines d). \<not> matchLiteral ''detail'' l)"
    by code_simp
  have h2: "\<forall>c\<in>set (Changes ?b). \<not> matchLiteral ''detail'' (Summary c)
        \<and> (\<forall>d\<in>set (Details c). \<forall>l\<in>set (Lines d). \<not> matchLiteral ''detail'' l)"
    by code_simp
  have h3: "\<forall>s. \<not> (\<lambda>s. False) s" by simp
  show ?thesis
    using filterEntries_no_match_elided [of headerOnlyEntry "matchLiteral ''detail''" "[siblingEntry]" "[exampleEntry]" "[]"]
      filterEntries_no_match_elided [of ?b "matchLiteral ''detail''" "[]" "[]" "[]"]
      filterEntries_no_match_elided [of ?b "\<lambda>s. False" "[]" "[]" "[exampleEntry]"]
      h1 h2 h3
    by blast
qed

subsection \<open>The header and trailer of a survivor\<close>

text \<open>
  C8: every change that survives in an entry of the result comes from an entry of the
  input with the same package, version, distributions, metadata, maintainer name, email
  address and date; the change has the summary of a change of that entry, and its
  details are details of that change.
\<close>

theorem filterEntries_ancestors:
  "\<forall>e'\<in>set (fst (filterEntries es re)). \<forall>c'\<in>set (Changes e').
     \<exists>e\<in>set es.
       Package e' = Package e \<and> Version e' = Version e
       \<and> Distributions e' = Distributions e \<and> Metadata e' = Metadata e
       \<and> MaintainerName e' = MaintainerName e \<and> EmailAddress e' = EmailAddress e
       \<and> Date e' = Date e
       \<and> (\<exists>c\<in>set (Changes e). Summary c' = Summary c \<and> set (Details c') \<subseteq> set (Details c))"
proof (intro ballI)
  fix e' c'
  assume "e' \<in> set (fst (filterEntries es re))" and c': "c' \<in> set (Changes e')"
  then obtain e where e: "e \<in> set es" and e': "e' = e\<lparr>Changes := keptChanges re e\<rparr>"
    by (auto simp: filterEntries_char keptEntries_def)
  from c' e' obtain c where c: "c \<in> set (Changes e)" and "c' = keptChange re c"
    by (auto simp: keptChanges_def)
  then have "Summary c' = Summary c \<and> set (Details c') \<subseteq> set (Details c)"
    by (auto simp: keptChange_def)
  then show "\<exists>e\<in>set es.
       Package e' = Package e \<and> Version e' = Version e
       \<and> Distributions e' = Distributions e \<and> Metadata e' = Metadata e
       \<and> MaintainerName e' = MaintainerName e \<and> EmailAddress e' = EmailAddress e
       \<and> Date e' = Date e
       \<and> (\<exists>c\<in>set (Changes e). Summary c' = Summary c \<and> set (Details c') \<subseteq> set (Details c))"
    using e e' c by (intro bexI [of _ e]) auto
qed

theorem filterEntries_ancestors_witness:
  "siblingKept \<in> set (fst (filterEntries [siblingEntry, headerOnlyEntry] (matchLiteral ''detail'')))
   \<and> siblingKeptChange \<in> set (Changes siblingKept)
   \<and> (\<exists>e\<in>set [siblingEntry, headerOnlyEntry].
       Package siblingKept = Package e \<and> Version siblingKept = Version e
       \<and> Distributions siblingKept = Distributions e \<and> Metadata siblingKept = Metadata e
       \<and> MaintainerName siblingKept = MaintainerName e
       \<and> EmailAddress siblingKept = EmailAddress e
       \<and> Date siblingKept = Date e
       \<and> (\<exists>c\<in>set (Changes e). Summary siblingKeptChange = Summary c
             \<and> set (Details siblingKeptChange) \<subseteq> set (Details c)))"
proof -
  have m1: "siblingKept
      \<in> set (fst (filterEntries [siblingEntry, headerOnlyEntry] (matchLiteral ''detail'')))"
    by code_simp
  have m2: "siblingKeptChange \<in> set (Changes siblingKept)"
    by code_simp
  show ?thesis
    using filterEntries_ancestors [of "[siblingEntry, headerOnlyEntry]" "matchLiteral ''detail''"]
      m1 m2
    by blast
qed

lemma HasPrefix_iff: "HasPrefix s p = (\<exists>r. s = p @ r)"
  unfolding HasPrefix_def
  by (metis append_eq_conv_conj append_take_drop_id)

lemma detailHead_not_change: "HasPrefix line detailHeadPrefix \<Longrightarrow> \<not> HasPrefix line changePrefix"
  by (auto simp: HasPrefix_iff detailHeadPrefix_def changePrefix_def)

lemma detailHead_not_maintainer: "HasPrefix line detailHeadPrefix \<Longrightarrow> \<not> HasPrefix line maintainerLinePrefix"
  by (auto simp: HasPrefix_iff detailHeadPrefix_def maintainerLinePrefix_def)

lemma maintainer_not_change: "HasPrefix line maintainerLinePrefix \<Longrightarrow> \<not> HasPrefix line changePrefix"
  by (auto simp: HasPrefix_iff changePrefix_def maintainerLinePrefix_def)

lemma maintainer_not_detailHead: "HasPrefix line maintainerLinePrefix \<Longrightarrow> \<not> HasPrefix line detailHeadPrefix"
  by (auto simp: HasPrefix_iff detailHeadPrefix_def maintainerLinePrefix_def)

lemma maintainer_not_detailTail: "HasPrefix line maintainerLinePrefix \<Longrightarrow> \<not> HasPrefix line detailTailPrefix"
  by (auto simp: HasPrefix_iff detailTailPrefix_def maintainerLinePrefix_def)

lemma HasPrefix_nonempty: "HasPrefix line p \<Longrightarrow> p \<noteq> [] \<Longrightarrow> line \<noteq> []"
  by (auto simp: HasPrefix_iff)

subsection \<open>A detail without a change\<close>

text \<open>
  C9: a line with the detail-head prefix read in the state \<open>InEntry\<close> is ignored: the
  step raises no error and leaves the state, the entry in progress and the output
  sequence as they are, and the loop goes on with the next line from the same
  variables.
\<close>

theorem detail_head_in_entry_ignored:
  assumes "state st = parseStateInEntry" and "HasPrefix line detailHeadPrefix"
  shows "processLine tparse st line = Inr st
    \<and> (LF \<notin> set line \<longrightarrow>
         parseLoop tparse failure (line @ LF # rest) st = parseLoop tparse failure rest st)"
proof -
  have p: "processLine tparse st line = Inr st"
    using assms detailHead_not_change detailHead_not_maintainer
    by (simp add: processLine_def)
  have "line \<noteq> []"
    using assms(2) by (auto simp: HasPrefix_iff detailHeadPrefix_def)
  then show ?thesis
    using p by (simp add: parseLoop_line)
qed

lemma parseLoop_unterminated:
  assumes "LF \<notin> set l" and "inp = [] \<or> last inp = LF"
  shows "parseLoop tparse failure (inp @ l) st = parseLoop tparse failure inp st"
  using assms(2)
proof (induction inp arbitrary: st rule: length_induct)
  case (1 inp)
  show ?case
  proof (cases "LF \<in> set inp")
    case False
    then have "inp = []"
      using 1(2) by (metis last_in_set)
    then show ?thesis
      using assms(1) by (simp add: parseLoop_eof)
  next
    case True
    then obtain l0 rest where inp: "inp = l0 @ LF # rest" and l0: "LF \<notin> set l0"
      by (meson split_list_first)
    have r: "rest = [] \<or> last rest = LF"
      using 1(2) inp by (cases "rest = []") auto
    have len: "length rest < length inp"
      using inp by simp
    have ih: "parseLoop tparse failure (rest @ l) st' = parseLoop tparse failure rest st'" for st'
      using 1(1) len r by blast
    show ?thesis
    proof (cases "l0 = []")
      case True
      then show ?thesis
        using inp ih by (simp add: parseLoop_blank)
    next
      case False
      then show ?thesis
        using inp l0 ih parseLoop_line [OF l0 False, of tparse failure "rest @ l" st]
          parseLoop_line [OF l0 False, of tparse failure rest st]
        by (simp split: sum.splits)
    qed
  qed
qed

theorem detail_head_in_entry_ignored_witness:
  "processLine time_Parse inEntryState ''    - orphan detail'' = Inr inEntryState
   \<and> parseLoop time_Parse None (''    - orphan detail'' @ LF # exampleTrailerLine @ [LF]) inEntryState
       = ([headerOnlyEntry], None)"
proof -
  have h1: "state inEntryState = parseStateInEntry"
    by (simp add: inEntryState_def)
  have h2: "HasPrefix ''    - orphan detail'' detailHeadPrefix"
    by code_simp
  have h3: "LF \<notin> set ''    - orphan detail''"
    by code_simp
  have r: "parseLoop time_Parse None (exampleTrailerLine @ [LF]) inEntryState
       = ([headerOnlyEntry], None)"
    by code_simp
  show ?thesis
    using detail_head_in_entry_ignored [OF h1 h2, of time_Parse None "exampleTrailerLine @ [LF]"]
      h3 r
    by simp
qed

subsection \<open>The last line without a newline\<close>

text \<open>
  C10: the bytes after the last newline of the input are discarded without being
  processed: parsing gives what it gives for the input cut after its last newline, and
  an input without any newline gives no entry and no error.
\<close>

theorem unterminated_last_line_discarded:
  assumes "LF \<notin> set l"
  shows "parseChangelog tparse (l, None) = ([], None)
    \<and> parseChangelog tparse (pre @ LF # l, failure) = parseChangelog tparse (pre @ [LF], failure)"
proof -
  have "parseChangelog tparse (pre @ LF # l, failure) = parseChangelog tparse (pre @ [LF], failure)"
    using parseLoop_unterminated [OF assms, of "pre @ [LF]" tparse failure]
    by (simp add: parseChangelog_def)
  moreover have "parseChangelog tparse (l, None) = ([], None)"
    using assms by (simp add: parseChangelog_def parseLoop_eof)
  ultimately show ?thesis by simp
qed

theorem unterminated_last_line_discarded_witness:
  "parseChangelog time_Parse (exampleHeaderLine @ LF # exampleTrailerLine, None) = ([], None)
   \<and> parseChangelog time_Parse (exampleHeaderLine @ LF # exampleTrailerLine @ [LF], None)
       = ([headerOnlyEntry], None)"
proof -
  have h: "LF \<notin> set exampleTrailerLine"
    by code_simp
  have a: "parseChangelog time_Parse (exampleHeaderLine @ [LF], None) = ([], None)"
    by code_simp
  have b: "parseChangelog time_Parse (exampleHeaderLine @ LF # exampleTrailerLine @ [LF], None)
       = ([headerOnlyEntry], None)"
    by code_simp
  show ?thesis
    using unterminated_last_line_discarded [OF h, of time_Parse exampleHeaderLine None] a b
    by simp
qed

lemma stateInv_initial: "stateInv \<lparr>entries = [], entry = None, state = parseStateInitial\<rparr>"
  by (simp add: stateInv_def)

lemma parseMaintainerLine_error:
  "parseMaintainerLine tparse e line = (e1, Some err) \<Longrightarrow> \<exists>report. err = FormatError report"
  by (auto simp: parseMaintainerLine_def Let_def split: option.splits sum.splits prod.splits)

lemma processLine_stateInv:
  assumes "stateInv st" and "processLine tparse st line = Inr st1"
  shows "stateInv st1"
proof (cases "state st")
  case parseStateInitial
  then show ?thesis
    using assms by (auto simp: processLine_def stateInv_def split: sum.splits)
next
  case parseStateInEntry
  then show ?thesis
    using assms
    by (auto simp: processLine_def stateInv_def processChangeLine_def processMaintainerLine_def
        split: if_splits option.splits prod.splits)
next
  case parseStateInChange
  then show ?thesis
    using assms
    by (auto simp: processLine_def stateInv_def processChangeLine_def processMaintainerLine_def
        processDetailHeadLine_def upd_last_def
        split: if_splits option.splits prod.splits)
next
  case parseStateInDetail
  then show ?thesis
    using assms
    by (auto simp: processLine_def stateInv_def processChangeLine_def processMaintainerLine_def
        processDetailHeadLine_def processDetailTailLine_def upd_last_def
        split: if_splits option.splits prod.splits)
qed

lemma processLine_no_panic:
  assumes "stateInv st"
  shows "processLine tparse st line \<noteq> Inl NilDereference"
proof (cases "state st")
  case parseStateInitial
  then show ?thesis
    by (auto simp: processLine_def parseEntryLine_def split: sum.splits option.splits)
next
  case parseStateInEntry
  then show ?thesis
    using assms
    by (auto simp: processLine_def stateInv_def processChangeLine_def processMaintainerLine_def
        split: if_splits option.splits prod.splits dest: parseMaintainerLine_error)
next
  case parseStateInChange
  then show ?thesis
    using assms
    by (auto simp: processLine_def stateInv_def processChangeLine_def processMaintainerLine_def
        processDetailHeadLine_def
        split: if_splits option.splits prod.splits dest: parseMaintainerLine_error)
next
  case parseStateInDetail
  then show ?thesis
    using assms
    by (auto simp: processLine_def stateInv_def processChangeLine_def processMaintainerLine_def
        processDetailHeadLine_def processDetailTailLine_def
        split: if_splits option.splits prod.splits dest: parseMaintainerLine_error)
qed

lemma processLine_trailer:
  assumes "stateInv st" and "state st \<noteq> parseStateInitial"
    and "HasPrefix line maintainerLinePrefix"
  shows "\<exists>e. entry st = Some e \<and> processLine tparse st line =
     (case parseMaintainerLine tparse e line of
        (e1, Some err) \<Rightarrow> Inl err
      | (e1, None) \<Rightarrow> Inr (st\<lparr>entries := entries st @ [e1], entry := Some e1,
                               state := parseStateInitial\<rparr>))"
proof -
  obtain e where e: "entry st = Some e"
    using assms(1,2) by (auto simp: stateInv_def split: option.splits)
  have "processLine tparse st line = processMaintainerLine tparse st line"
    using assms(2,3) maintainer_not_change maintainer_not_detailHead maintainer_not_detailTail
    by (cases "state st") (simp_all add: processLine_def)
  then show ?thesis
    using e by (simp add: processMaintainerLine_def)
qed

lemma entryLineRegex_leading_space:
  assumes "line \<noteq> []" and "hd line = CHR '' ''"
  shows "entryLineRegex line = None"
  using assms by (cases line) (simp_all add: entryLineRegex_def)

lemma suf_dropWhile: "\<exists>p. xs = p @ dropWhile P xs"
  by (metis takeWhile_dropWhile_id)

lemma suf_tl: "\<exists>p. xs = p @ tl xs"
  by (cases xs) auto

lemma suf_drop: "\<exists>p. xs = p @ drop n xs"
  by (metis append_take_drop_id)

lemma maintainerLineRegex_SomeD:
  assumes "maintainerLineRegex line = Some (m1, m2, m3)"
  shows "HasPrefix line maintainerLinePrefix" and "\<exists>p s. line = p @ m3 @ s"
proof -
  show pre: "HasPrefix line maintainerLinePrefix"
    using assms by (auto simp: maintainerLineRegex_def split: if_splits)
  define r0 where "r0 = drop (length maintainerLinePrefix) line"
  define r1 where "r1 = dropWhile (\<lambda>c. c \<noteq> CHR ''<'') r0"
  define r3 where "r3 = dropWhile (\<lambda>c. c \<noteq> CHR ''>'') (tl r1)"
  define r5 where "r5 = dropWhile (\<lambda>c. c = CHR '' '') (tl r3)"
  have m3: "m3 = takeWhile (\<lambda>c. c \<noteq> LF) r5"
    using assms pre
    by (auto simp: maintainerLineRegex_def Let_def r0_def r1_def r3_def r5_def split: if_splits)
  obtain p0 where "line = p0 @ r0"
    unfolding r0_def using suf_drop by blast
  moreover obtain p1 where "r0 = p1 @ r1"
    unfolding r1_def using suf_dropWhile by blast
  moreover obtain p2 where "r1 = p2 @ tl r1"
    using suf_tl by blast
  moreover obtain p3 where "tl r1 = p3 @ r3"
    unfolding r3_def using suf_dropWhile by blast
  moreover obtain p4 where "r3 = p4 @ tl r3"
    using suf_tl by blast
  moreover obtain p5 where "tl r3 = p5 @ r5"
    unfolding r5_def using suf_dropWhile by blast
  moreover have "r5 = m3 @ dropWhile (\<lambda>c. c \<noteq> LF) r5"
    by (simp add: m3)
  ultimately have "line = (p0 @ p1 @ p2 @ p3 @ p4 @ p5) @ m3 @ dropWhile (\<lambda>c. c \<noteq> LF) r5"
    by (metis append.assoc)
  then show "\<exists>p s. line = p @ m3 @ s"
    by blast
qed

subsection \<open>A trailer line with a bad date\<close>

text \<open>
  C7 as stated, "for every trailer-prefixed line whose date fails to parse, parsing
  fails", fails for the line of its own example when it ends the input without a
  newline: the line is not processed, and the parser returns no entry and no error.
\<close>

theorem unterminated_bad_date_counterexample:
  "maintainerLineRegex badDateLine = Some (''A B'', ''a@b.com'', ''not-a-date'')
   \<and> time_Parse ''not-a-date'' = Inl badDateMessage
   \<and> parseChangelog time_Parse (exampleHeaderLine @ LF # badDateLine, None) = ([], None)"
  by code_simp

text \<open>
  C7, amended: when the trailer pattern matches a line and \<open>time.Parse\<close> rejects the
  text of its date group, \<open>parseMaintainerLine\<close> fails with the message
  \<open>parse date: DATE, CAUSE\<close>, and the parser, reading that line ended by a newline in
  any state it can be in, fails with a \<open>FormatError\<close> and no entries; the message holds
  the text of the date. (In the initial state the line is read as a header and the
  message is the one of an invalid header, which holds the whole line.)
\<close>

theorem bad_date_rejected:
  assumes "stateInv st" and "LF \<notin> set line"
    and "maintainerLineRegex line = Some (m1, m2, m3)" and "tparse m3 = Inl msg"
  shows "snd (parseMaintainerLine tparse e line)
           = Some (FormatError (''parse date: '' @ m3 @ '', '' @ msg))
    \<and> (\<exists>report. parseLoop tparse failure (line @ LF # rest) st = ([], Some (FormatError report))
          \<and> (\<exists>p s. report = p @ m3 @ s)
          \<and> (state st \<noteq> parseStateInitial \<longrightarrow> report = ''parse date: '' @ m3 @ '', '' @ msg))"
proof -
  have pm: "snd (parseMaintainerLine tparse e' line)
           = Some (FormatError (''parse date: '' @ m3 @ '', '' @ msg))" for e'
    using assms(3,4) by (simp add: parseMaintainerLine_def)
  have pre: "HasPrefix line maintainerLinePrefix"
    using maintainerLineRegex_SomeD(1) [OF assms(3)] .
  then have ne: "line \<noteq> []" and sp: "hd line = CHR '' ''"
    by (auto simp: HasPrefix_iff maintainerLinePrefix_def)
  obtain p s where mid: "line = p @ m3 @ s"
    using maintainerLineRegex_SomeD(2) [OF assms(3)] by blast
  have step: "parseLoop tparse failure (line @ LF # rest) st =
      (case processLine tparse st line of
        Inl err \<Rightarrow> ([], Some err)
      | Inr st1 \<Rightarrow> parseLoop tparse failure rest st1)"
    using assms(2) ne by (rule parseLoop_line)
  show ?thesis
  proof (cases "state st = parseStateInitial")
    case True
    define report where "report = ''invalid format entry line: '' @ line"
    have "processLine tparse st line = Inl (FormatError report)"
      using True entryLineRegex_leading_space [OF ne sp]
      by (simp add: processLine_def parseEntryLine_def report_def)
    then have loop: "parseLoop tparse failure (line @ LF # rest) st = ([], Some (FormatError report))"
      using step by simp
    have "report = (''invalid format entry line: '' @ p) @ m3 @ s"
      using mid by (simp add: report_def)
    then have "\<exists>p s. report = p @ m3 @ s"
      by blast
    then have "\<exists>report. parseLoop tparse failure (line @ LF # rest) st = ([], Some (FormatError report))
          \<and> (\<exists>p s. report = p @ m3 @ s)
          \<and> (state st \<noteq> parseStateInitial \<longrightarrow> report = ''parse date: '' @ m3 @ '', '' @ msg)"
      using loop True by blast
    then show ?thesis
      using pm by blast
  next
    case False
    define report where "report = ''parse date: '' @ m3 @ '', '' @ msg"
    obtain e0 where "entry st = Some e0" and "processLine tparse st line =
       (case parseMaintainerLine tparse e0 line of
          (e1, Some err) \<Rightarrow> Inl err
        | (e1, None) \<Rightarrow> Inr (st\<lparr>entries := entries st @ [e1], entry := Some e1,
                               state := parseStateInitial\<rparr>))"
      using processLine_trailer [OF assms(1) False pre] by blast
    then have "processLine tparse st line = Inl (FormatError report)"
      using pm [of e0] by (cases "parseMaintainerLine tparse e0 line") (simp add: report_def)
    then have loop: "parseLoop tparse failure (line @ LF # rest) st = ([], Some (FormatError report))"
      using step by simp
    have "report = ''parse date: '' @ m3 @ ('', '' @ msg)"
      by (simp add: report_def)
    then have "\<exists>p s. report = p @ m3 @ s"
      by blast
    then have "\<exists>report. parseLoop tparse failure (line @ LF # rest) st = ([], Some (FormatError report))
          \<and> (\<exists>p s. report = p @ m3 @ s)
          \<and> (state st \<noteq> parseStateInitial \<longrightarrow> report = ''parse date: '' @ m3 @ '', '' @ msg)"
      using loop report_def by blast
    then show ?thesis
      using pm by blast
  qed
qed

theorem bad_date_rejected_witness:
  "snd (parseMaintainerLine time_Parse headerOnlyEntry badDateLine)
       = Some (FormatError (''parse date: '' @ ''not-a-date'' @ '', '' @ badDateMessage))
   \<and> parseLoop time_Parse None (badDateLine @ LF # headerOnlyText) inEntryState
       = ([], Some (FormatError (''parse date: '' @ ''not-a-date'' @ '', '' @ badDateMessage)))"
proof -
  have h1: "stateInv inEntryState" by code_simp
  have h2: "LF \<notin> set badDateLine" by code_simp
  have h3: "maintainerLineRegex badDateLine = Some (''A B'', ''a@b.com'', ''not-a-date'')"
    by code_simp
  have h4: "time_Parse ''not-a-date'' = Inl badDateMessage"
    by code_simp
  have h5: "state inEntryState \<noteq> parseStateInitial"
    by (simp add: inEntryState_def)
  show ?thesis
    using bad_date_rejected [of inEntryState badDateLine "''A B''" "''a@b.com''" "''not-a-date''"
        time_Parse badDateMessage headerOnlyEntry None headerOnlyText, OF h1 h2 h3 h4] h5
    by auto
qed

subsection \<open>A malformed header\<close>

text \<open>
  C6 as stated, "for every input whose first non-blank line does not match the header
  shape, parsing fails", fails for the line of its own example when no newline ends it:
  the loop leaves at the end of the input with the bytes it has read, and the parser
  returns no entry and no error.
\<close>

theorem malformed_header_counterexample:
  "entryLineRegex badHeaderLine = None
   \<and> parseChangelog time_Parse (badHeaderLine, None) = ([], None)"
  by code_simp

text \<open>
  C6, amended: when the first non-empty line of the input is ended by a newline and
  does not match the header pattern, parsing fails with the error
  \<open>invalid format entry line: LINE\<close> and no entries, whatever follows.
\<close>

theorem malformed_header_rejected:
  assumes "set blanks \<subseteq> {LF}" and "line \<noteq> []" and "LF \<notin> set line"
    and "entryLineRegex line = None"
  shows "parseChangelog tparse (blanks @ line @ LF # rest, failure)
     = ([], Some (FormatError (''invalid format entry line: '' @ line)))"
proof -
  let ?st = "\<lparr>entries = [], entry = None, state = parseStateInitial\<rparr>"
  have skip_blanks: "parseLoop tparse failure (blanks @ inp) ?st = parseLoop tparse failure inp ?st" for inp
    using assms(1)
  proof (induction blanks)
    case Nil
    then show ?case by simp
  next
    case (Cons b bs)
    then have "b = LF" by simp
    then show ?case
      using Cons by (simp add: parseLoop_blank)
  qed
  have "processLine tparse ?st line = Inl (FormatError (''invalid format entry line: '' @ line))"
    using assms(4) by (simp add: processLine_def parseEntryLine_def)
  then have "parseLoop tparse failure (line @ LF # rest) ?st
      = ([], Some (FormatError (''invalid format entry line: '' @ line)))"
    using parseLoop_line [OF assms(3,2)] by simp
  then show ?thesis
    using skip_blanks [of "line @ LF # rest"] by (simp add: parseChangelog_def)
qed

theorem malformed_header_rejected_witness:
  "parseChangelog time_Parse ([LF] @ badHeaderLine @ LF # headerOnlyText, None)
     = ([], Some (FormatError (''invalid format entry line: '' @ badHeaderLine)))"
proof -
  have h1: "set [LF] \<subseteq> {LF}" by simp
  have h2: "badHeaderLine \<noteq> []" by code_simp
  have h3: "LF \<notin> set badHeaderLine" by code_simp
  have h4: "entryLineRegex badHeaderLine = None" by code_simp
  show ?thesis
    using malformed_header_rejected [OF h1 h2 h3 h4] .
qed

lemma parseLoop_error_empty:
  "snd (parseLoop tparse failure inp st) \<noteq> None \<Longrightarrow> fst (parseLoop tparse failure inp st) = []"
proof (induction inp arbitrary: st rule: length_induct)
  case (1 inp)
  show ?case
  proof (cases "LF \<in> set inp")
    case False
    then show ?thesis
      using 1(2) by (simp add: parseLoop_eof split: option.splits)
  next
    case True
    then obtain l0 rest where inp: "inp = l0 @ LF # rest" and l0: "LF \<notin> set l0"
      by (meson split_list_first)
    have ih: "snd (parseLoop tparse failure rest st') \<noteq> None
        \<Longrightarrow> fst (parseLoop tparse failure rest st') = []" for st'
      using 1(1) inp by simp
    show ?thesis
    proof (cases "l0 = []")
      case True
      then show ?thesis
        using inp ih 1(2) by (simp add: parseLoop_blank)
    next
      case False
      show ?thesis
      proof (cases "processLine tparse st l0")
        case (Inl err)
        then show ?thesis
          using inp parseLoop_line [OF l0 False, of tparse failure rest st] by simp
      next
        case (Inr st1)
        then show ?thesis
          using inp parseLoop_line [OF l0 False, of tparse failure rest st] ih [of st1] 1(2)
          by simp
      qed
    qed
  qed
qed

lemma processLine_entries:
  assumes "processLine tparse st line = Inr st1"
  shows "entries st1 = entries st
    \<or> (\<exists>e e1. entry st = Some e \<and> HasPrefix line maintainerLinePrefix
          \<and> parseMaintainerLine tparse e line = (e1, None)
          \<and> entries st1 = entries st @ [e1] \<and> state st1 = parseStateInitial)"
proof -
  have m: "entries st1 = entries st
    \<or> (\<exists>e e1. entry st = Some e
          \<and> parseMaintainerLine tparse e line = (e1, None)
          \<and> entries st1 = entries st @ [e1] \<and> state st1 = parseStateInitial)"
    if "processMaintainerLine tparse st line = Inr st1"
    using that
    by (auto simp: processMaintainerLine_def split: option.splits prod.splits)
  have c: "entries st1 = entries st" if "processChangeLine st line = Inr st1"
    using that by (auto simp: processChangeLine_def split: option.splits)
  have h: "entries st1 = entries st" if "processDetailHeadLine st line = Inr st1"
    using that by (auto simp: processDetailHeadLine_def split: option.splits if_splits)
  have t: "entries st1 = entries st" if "processDetailTailLine st line = Inr st1"
    using that by (auto simp: processDetailTailLine_def split: option.splits if_splits)
  show ?thesis
  proof (cases "state st")
    case parseStateInitial
    then show ?thesis
      using assms by (auto simp: processLine_def split: sum.splits)
  next
    case parseStateInEntry
    then show ?thesis
      using assms m c by (auto simp: processLine_def split: if_splits)
  next
    case parseStateInChange
    then show ?thesis
      using assms m c h by (auto simp: processLine_def split: if_splits)
  next
    case parseStateInDetail
    then show ?thesis
      using assms m c h t by (auto simp: processLine_def split: if_splits)
  qed
qed

subsection \<open>Entries or an error\<close>

text \<open>
  C5 as stated, "any malformed header or trailer line aborts the whole parse", fails
  for a malformed line that ends the input without a newline: the loop leaves at the
  end of the input with the bytes it has read, and the parser returns the entries
  collected before and no error.
\<close>

theorem unterminated_bad_header_counterexample:
  "entryLineRegex badHeaderLine = None
   \<and> parseChangelog time_Parse (exampleText @ badHeaderLine, None) = ([exampleEntry], None)"
  by code_simp

text \<open>
  C5, amended: \<open>parseChangelog\<close> returns the pair of Go's two results, and when its
  error is set its entries are empty. A line ended by a newline that fails the header
  pattern in the initial state, and a line ended by a newline with the trailer prefix
  that \<open>parseMaintainerLine\<close> rejects in any other state, end the parse at once with that
  error and no entries, whatever was collected before and whatever follows. One step
  of the loop leaves the output sequence as it is, or appends exactly one entry to it,
  and it appends only when the line is a trailer that \<open>parseMaintainerLine\<close> accepts for
  the entry in progress; the state is then the initial one.
\<close>

theorem parse_all_or_nothing:
  "(snd (parseChangelog tparse r) \<noteq> None \<longrightarrow> fst (parseChangelog tparse r) = [])
   \<and> (state st = parseStateInitial \<and> line \<noteq> [] \<and> LF \<notin> set line
        \<and> entryLineRegex line = None
      \<longrightarrow> parseLoop tparse failure (line @ LF # rest) st
            = ([], Some (FormatError (''invalid format entry line: '' @ line))))
   \<and> (stateInv st \<and> state st \<noteq> parseStateInitial \<and> HasPrefix line maintainerLinePrefix
        \<and> LF \<notin> set line \<and> entry st = Some e
        \<and> snd (parseMaintainerLine tparse e line) = Some err
      \<longrightarrow> parseLoop tparse failure (line @ LF # rest) st = ([], Some err))
   \<and> (processLine tparse st line = Inr st1
      \<longrightarrow> entries st1 = entries st
          \<or> (\<exists>e0 e1. entry st = Some e0 \<and> HasPrefix line maintainerLinePrefix
                \<and> parseMaintainerLine tparse e0 line = (e1, None)
                \<and> entries st1 = entries st @ [e1] \<and> state st1 = parseStateInitial))"
proof (intro conjI impI)
  assume "snd (parseChangelog tparse r) \<noteq> None"
  then show "fst (parseChangelog tparse r) = []"
    unfolding parseChangelog_def by (rule parseLoop_error_empty)
next
  assume a: "state st = parseStateInitial \<and> line \<noteq> [] \<and> LF \<notin> set line
        \<and> entryLineRegex line = None"
  then have "processLine tparse st line
      = Inl (FormatError (''invalid format entry line: '' @ line))"
    by (simp add: processLine_def parseEntryLine_def)
  then show "parseLoop tparse failure (line @ LF # rest) st
            = ([], Some (FormatError (''invalid format entry line: '' @ line)))"
    using a parseLoop_line [of line tparse failure rest st] by simp
next
  assume a: "stateInv st \<and> state st \<noteq> parseStateInitial \<and> HasPrefix line maintainerLinePrefix
        \<and> LF \<notin> set line \<and> entry st = Some e
        \<and> snd (parseMaintainerLine tparse e line) = Some err"
  then have ne: "line \<noteq> []"
    by (auto simp: HasPrefix_iff maintainerLinePrefix_def)
  obtain e0 where "entry st = Some e0" and "processLine tparse st line =
       (case parseMaintainerLine tparse e0 line of
          (e1, Some err) \<Rightarrow> Inl err
        | (e1, None) \<Rightarrow> Inr (st\<lparr>entries := entries st @ [e1], entry := Some e1,
                               state := parseStateInitial\<rparr>))"
    using processLine_trailer [of st line tparse] a by blast
  then have "processLine tparse st line = Inl err"
    using a by (cases "parseMaintainerLine tparse e line") auto
  then show "parseLoop tparse failure (line @ LF # rest) st = ([], Some err)"
    using a ne parseLoop_line [of line tparse failure rest st] by simp
next
  assume "processLine tparse st line = Inr st1"
  then show "entries st1 = entries st
          \<or> (\<exists>e0 e1. entry st = Some e0 \<and> HasPrefix line maintainerLinePrefix
                \<and> parseMaintainerLine tparse e0 line = (e1, None)
                \<and> entries st1 = entries st @ [e1] \<and> state st1 = parseStateInitial)"
    by (rule processLine_entries)
qed

theorem parse_all_or_nothing_witness:
  "snd (parseChangelog time_Parse (exampleText @ badHeaderLine @ [LF], None)) \<noteq> None
   \<and> fst (parseChangelog time_Parse (exampleText @ badHeaderLine @ [LF], None)) = []
   \<and> parseLoop time_Parse None (badHeaderLine @ LF # headerOnlyText)
        (initialState\<lparr>entries := [exampleEntry]\<rparr>)
       = ([], Some (FormatError (''invalid format entry line: '' @ badHeaderLine)))
   \<and> parseLoop time_Parse None (badDateLine @ LF # headerOnlyText)
        (inEntryState\<lparr>entries := [exampleEntry]\<rparr>)
       = ([], Some (FormatError (''parse date: '' @ ''not-a-date'' @ '', '' @ badDateMessage)))
   \<and> processLine time_Parse (inEntryState\<lparr>entries := [exampleEntry]\<rparr>) exampleTrailerLine
       = Inr \<lparr>entries = [exampleEntry, headerOnlyEntry], entry = Some headerOnlyEntry,
              state = parseStateInitial\<rparr>"
proof -
  let ?st0 = "initialState\<lparr>entries := [exampleEntry]\<rparr>"
  let ?st1 = "inEntryState\<lparr>entries := [exampleEntry]\<rparr>"
  let ?e = "headerOnlyEntry\<lparr>MaintainerName := [], EmailAddress := [], Date := zeroTime\<rparr>"
  let ?err = "FormatError (''parse date: '' @ ''not-a-date'' @ '', '' @ badDateMessage)"
  let ?st2 = "\<lparr>entries = [exampleEntry, headerOnlyEntry], entry = Some headerOnlyEntry,
              state = parseStateInitial\<rparr>"
  have a1: "snd (parseChangelog time_Parse (exampleText @ badHeaderLine @ [LF], None)) \<noteq> None"
    by code_simp
  have b1: "state ?st0 = parseStateInitial \<and> badHeaderLine \<noteq> [] \<and> LF \<notin> set badHeaderLine
        \<and> entryLineRegex badHeaderLine = None"
    by code_simp
  have c1: "stateInv ?st1 \<and> state ?st1 \<noteq> parseStateInitial
        \<and> HasPrefix badDateLine maintainerLinePrefix
        \<and> LF \<notin> set badDateLine \<and> entry ?st1 = Some ?e
        \<and> snd (parseMaintainerLine time_Parse ?e badDateLine) = Some ?err"
    by code_simp
  have d1: "processLine time_Parse ?st1 exampleTrailerLine = Inr ?st2"
    by code_simp
  have a2: "fst (parseChangelog time_Parse (exampleText @ badHeaderLine @ [LF], None)) = []"
    using parse_all_or_nothing [of time_Parse "(exampleText @ badHeaderLine @ [LF], None)"] a1
    by blast
  have b2: "parseLoop time_Parse None (badHeaderLine @ LF # headerOnlyText) ?st0
       = ([], Some (FormatError (''invalid format entry line: '' @ badHeaderLine)))"
    using parse_all_or_nothing [of time_Parse _ ?st0 badHeaderLine None headerOnlyText] b1
    by blast
  have c2: "parseLoop time_Parse None (badDateLine @ LF # headerOnlyText) ?st1 = ([], Some ?err)"
    using parse_all_or_nothing [of time_Parse _ ?st1 badDateLine None headerOnlyText ?e ?err] c1
    by blast
  show ?thesis
    using a1 a2 b2 c2 d1 by blast
qed

section \<open>Parsing what was rendered\<close>

subsection \<open>The line patterns on rendered lines\<close>

lemma takeWhile_stop:
  assumes "\<forall>x\<in>set xs. P x" and "\<not> P y"
  shows "takeWhile P (xs @ y # ys) = xs"
  using assms by (induction xs) auto

lemma dropWhile_stop:
  assumes "\<forall>x\<in>set xs. P x" and "\<not> P y"
  shows "dropWhile P (xs @ y # ys) = y # ys"
  using assms by (induction xs) auto

lemma takeWhile_all: "\<forall>x\<in>set xs. P x \<Longrightarrow> takeWhile P xs = xs"
  by (induction xs) auto

lemma dropWhile_none: "xs = [] \<or> \<not> P (hd xs) \<Longrightarrow> dropWhile P xs = xs"
  by (cases xs) auto

lemma takeWhile_none: "xs = [] \<or> \<not> P (hd xs) \<Longrightarrow> takeWhile P xs = []"
  by (cases xs) auto

lemma entryLineRegex_render:
  assumes "pkg \<noteq> []" "CHR '' '' \<notin> set pkg"
    and "ver \<noteq> []" "CHR '')'' \<notin> set ver"
    and "dist \<noteq> []" "CHR '';'' \<notin> set dist" "dist = '' '' \<or> hd dist \<noteq> CHR '' ''"
    and "LF \<notin> set meta" "meta = [] \<or> hd meta \<noteq> CHR '' ''"
  shows "entryLineRegex (pkg @ '' ('' @ ver @ '') '' @ dist @ ''; '' @ meta)
     = Some (pkg, ver, dist, meta)"
proof -
  let ?sp = "\<lambda>c. c = CHR '' ''"
  let ?r5 = "CHR '' '' # dist @ CHR '';'' # CHR '' '' # meta"
  let ?r3 = "ver @ CHR '')'' # ?r5"
  let ?r1 = "CHR '' '' # CHR ''('' # ?r3"
  have m1: "takeWhile (\<lambda>c. c \<noteq> CHR '' '') (pkg @ ?r1) = pkg"
    using assms(2) by (intro takeWhile_stop) auto
  have r1: "dropWhile (\<lambda>c. c \<noteq> CHR '' '') (pkg @ ?r1) = ?r1"
    using assms(2) by (intro dropWhile_stop) auto
  have m2: "takeWhile (\<lambda>c. c \<noteq> CHR '')'') ?r3 = ver"
    using assms(4) by (intro takeWhile_stop) auto
  have r4: "dropWhile (\<lambda>c. c \<noteq> CHR '')'') ?r3 = CHR '')'' # ?r5"
    using assms(4) by (intro dropWhile_stop) auto
  have s: "takeWhile (\<lambda>c. c \<noteq> CHR '';'') (dist @ CHR '';'' # CHR '' '' # meta) = dist"
    using assms(6) by (intro takeWhile_stop) auto
  have r6: "dropWhile (\<lambda>c. c \<noteq> CHR '';'') (dist @ CHR '';'' # CHR '' '' # meta)
      = CHR '';'' # CHR '' '' # meta"
    using assms(6) by (intro dropWhile_stop) auto
  have t: "dropWhile ?sp dist = (if dist = '' '' then [] else dist)"
    using assms(5,7) by (cases dist) auto
  have k: "takeWhile ?sp dist = (if dist = '' '' then '' '' else [])"
    using assms(5,7) by (cases dist) auto
  have m4: "takeWhile (\<lambda>c. c \<noteq> LF) (dropWhile ?sp meta) = meta"
    using assms(8,9) by (cases meta) (auto simp: takeWhile_all)
  have ex: "dist \<noteq> '' '' \<longrightarrow> (\<exists>x\<in>set dist. x \<noteq> CHR '' '')"
    using assms(5,7) by (cases dist) auto
  show ?thesis
    using assms(1,3,5) m1 r1 m2 r4 s r6 t k m4 ex
    by (simp add: entryLineRegex_def Let_def)
qed

lemma maintainerLineRegex_render:
  assumes "name \<noteq> []" "CHR ''<'' \<notin> set name"
    and "email \<noteq> []" "CHR ''>'' \<notin> set email"
    and "LF \<notin> set dt" "dt = [] \<or> hd dt \<noteq> CHR '' ''"
  shows "maintainerLineRegex (maintainerLinePrefix @ name @ '' <'' @ email @ ''> '' @ dt)
     = Some (name, email, dt)"
proof -
  let ?sp = "\<lambda>c. c = CHR '' ''"
  let ?line = "maintainerLinePrefix @ name @ '' <'' @ email @ ''> '' @ dt"
  have pre: "HasPrefix ?line maintainerLinePrefix"
    by (simp add: HasPrefix_def)
  let ?r2 = "email @ CHR ''>'' # CHR '' '' # dt"
  let ?r0 = "name @ CHR '' '' # CHR ''<'' # ?r2"
  have r0: "drop (length maintainerLinePrefix) ?line = ?r0"
    by simp
  have "takeWhile (\<lambda>c. c \<noteq> CHR ''<'') ((name @ '' '') @ CHR ''<'' # ?r2) = name @ '' ''"
    using assms(2) by (intro takeWhile_stop) auto
  then have s: "takeWhile (\<lambda>c. c \<noteq> CHR ''<'') ?r0 = name @ '' ''"
    by simp
  have "dropWhile (\<lambda>c. c \<noteq> CHR ''<'') ((name @ '' '') @ CHR ''<'' # ?r2) = CHR ''<'' # ?r2"
    using assms(2) by (intro dropWhile_stop) auto
  then have r1: "dropWhile (\<lambda>c. c \<noteq> CHR ''<'') ?r0 = CHR ''<'' # ?r2"
    by simp
  have m2: "takeWhile (\<lambda>c. c \<noteq> CHR ''>'') ?r2 = email"
    using assms(4) by (intro takeWhile_stop) auto
  have r3: "dropWhile (\<lambda>c. c \<noteq> CHR ''>'') ?r2 = CHR ''>'' # CHR '' '' # dt"
    using assms(4) by (intro dropWhile_stop) auto
  have m3: "takeWhile (\<lambda>c. c \<noteq> LF) (dropWhile ?sp dt) = dt"
    using assms(5,6) by (cases dt) (auto simp: takeWhile_all)
  have len: "\<not> length name < Suc 0"
    using assms(1) by (cases name) auto
  show ?thesis
    unfolding maintainerLineRegex_def r0
    using pre assms(1,3) s r1 m2 r3 m3 len
    by (simp add: Let_def)
qed

subsection \<open>The groups of a matched line\<close>

lemma entryLineRegex_SomeD:
  assumes "entryLineRegex line = Some (m1, m2, m3, m4)"
  defines "r1 \<equiv> dropWhile (\<lambda>c. c \<noteq> CHR '' '') line"
  defines "r3 \<equiv> tl (dropWhile (\<lambda>c. c = CHR '' '') r1)"
  defines "r5 \<equiv> tl (dropWhile (\<lambda>c. c \<noteq> CHR '')'') r3)"
  defines "s \<equiv> takeWhile (\<lambda>c. c \<noteq> CHR '';'') r5"
  defines "r7 \<equiv> tl (dropWhile (\<lambda>c. c \<noteq> CHR '';'') r5)"
  shows "m1 = takeWhile (\<lambda>c. c \<noteq> CHR '' '') line \<and> m1 \<noteq> []
    \<and> m2 = takeWhile (\<lambda>c. c \<noteq> CHR '')'') r3 \<and> m2 \<noteq> []
    \<and> m3 = (if dropWhile (\<lambda>c. c = CHR '' '') s = [] then '' '' else dropWhile (\<lambda>c. c = CHR '' '') s)
    \<and> m4 = takeWhile (\<lambda>c. c \<noteq> LF) (dropWhile (\<lambda>c. c = CHR '' '') r7)"
proof -
  have a: "\<not> (takeWhile (\<lambda>c. c \<noteq> CHR '' '') line = [] \<or> r1 = []
      \<or> dropWhile (\<lambda>c. c = CHR '' '') r1 = [] \<or> hd (dropWhile (\<lambda>c. c = CHR '' '') r1) \<noteq> CHR ''('')"
    using assms(1) unfolding entryLineRegex_def Let_def r1_def
    by (meson option.distinct(1))
  then have 1: "(let m2 = takeWhile (\<lambda>c. c \<noteq> CHR '')'') r3;
               r4 = dropWhile (\<lambda>c. c \<noteq> CHR '')'') r3
           in if m2 = [] \<or> r4 = [] then None
              else
                let r5 = tl r4;
                    s = takeWhile (\<lambda>c. c \<noteq> CHR '';'') r5;
                    r6 = dropWhile (\<lambda>c. c \<noteq> CHR '';'') r5;
                    k = length (takeWhile (\<lambda>c. c = CHR '' '') s);
                    t = dropWhile (\<lambda>c. c = CHR '' '') s
                in if r6 = [] \<or> k = 0 \<or> (t = [] \<and> k < 2) then None
                   else
                     let m3 = (if t = [] then '' '' else t);
                         r7 = tl r6
                     in if takeWhile (\<lambda>c. c = CHR '' '') r7 = [] then None
                        else Some (takeWhile (\<lambda>c. c \<noteq> CHR '' '') line, m2, m3,
                               takeWhile (\<lambda>c. c \<noteq> LF) (dropWhile (\<lambda>c. c = CHR '' '') r7)))
      = Some (m1, m2, m3, m4)"
    using assms(1) unfolding entryLineRegex_def r1_def r3_def
    by (simp only: Let_def if_False)
  have b: "\<not> (takeWhile (\<lambda>c. c \<noteq> CHR '')'') r3 = [] \<or> dropWhile (\<lambda>c. c \<noteq> CHR '')'') r3 = [])"
    using 1 unfolding Let_def by (meson option.distinct(1))
  then have 2: "(let s = takeWhile (\<lambda>c. c \<noteq> CHR '';'') r5;
                    r6 = dropWhile (\<lambda>c. c \<noteq> CHR '';'') r5;
                    k = length (takeWhile (\<lambda>c. c = CHR '' '') s);
                    t = dropWhile (\<lambda>c. c = CHR '' '') s
                in if r6 = [] \<or> k = 0 \<or> (t = [] \<and> k < 2) then None
                   else
                     let m3 = (if t = [] then '' '' else t);
                         r7 = tl r6
                     in if takeWhile (\<lambda>c. c = CHR '' '') r7 = [] then None
                        else Some (takeWhile (\<lambda>c. c \<noteq> CHR '' '') line, takeWhile (\<lambda>c. c \<noteq> CHR '')'') r3, m3,
                               takeWhile (\<lambda>c. c \<noteq> LF) (dropWhile (\<lambda>c. c = CHR '' '') r7)))
      = Some (m1, m2, m3, m4)"
    using 1 unfolding r5_def by (simp only: Let_def if_False)
  have c: "\<not> (dropWhile (\<lambda>c. c \<noteq> CHR '';'') r5 = [] \<or> length (takeWhile (\<lambda>c. c = CHR '' '') s) = 0
      \<or> (dropWhile (\<lambda>c. c = CHR '' '') s = [] \<and> length (takeWhile (\<lambda>c. c = CHR '' '') s) < 2))"
    using 2 unfolding Let_def s_def by (meson option.distinct(1))
  then have 3: "(if takeWhile (\<lambda>c. c = CHR '' '') r7 = [] then None
                        else Some (takeWhile (\<lambda>c. c \<noteq> CHR '' '') line, takeWhile (\<lambda>c. c \<noteq> CHR '')'') r3,
                               (if dropWhile (\<lambda>c. c = CHR '' '') s = [] then '' '' else dropWhile (\<lambda>c. c = CHR '' '') s),
                               takeWhile (\<lambda>c. c \<noteq> LF) (dropWhile (\<lambda>c. c = CHR '' '') r7)))
      = Some (m1, m2, m3, m4)"
    using 2 unfolding s_def r7_def by (simp only: Let_def if_False)
  then have "Some (takeWhile (\<lambda>c. c \<noteq> CHR '' '') line, takeWhile (\<lambda>c. c \<noteq> CHR '')'') r3,
                               (if dropWhile (\<lambda>c. c = CHR '' '') s = [] then '' '' else dropWhile (\<lambda>c. c = CHR '' '') s),
                               takeWhile (\<lambda>c. c \<noteq> LF) (dropWhile (\<lambda>c. c = CHR '' '') r7))
      = Some (m1, m2, m3, m4)"
    by (meson option.distinct(1))
  then show ?thesis
    using a b by simp
qed

lemma set_tl_subset: "set (tl xs) \<subseteq> set xs"
  by (cases xs) auto

lemma set_dropWhile_subset: "set (dropWhile P xs) \<subseteq> set xs"
  by (auto dest: set_dropWhileD)

lemma set_takeWhile_subset: "set (takeWhile P xs) \<subseteq> set xs"
  by (auto dest: set_takeWhileD)

lemma hd_takeWhile_dropWhile:
  "takeWhile Q (dropWhile P xs) = [] \<or> \<not> P (hd (takeWhile Q (dropWhile P xs)))"
proof (cases "dropWhile P xs")
  case Nil
  show ?thesis unfolding Nil by simp
next
  case (Cons y ys)
  then have "\<not> P y"
    using hd_dropWhile [of P xs] by simp
  then show ?thesis
    using Cons by simp
qed

lemma entryLineRegex_wf:
  assumes "entryLineRegex line = Some (m1, m2, m3, m4)" and "LF \<notin> set line"
  shows "wfHeader \<lparr>Package = m1, Version = m2, Distributions = m3, Metadata = m4,
     MaintainerName = n, EmailAddress = a, Date = d, Changes = cs\<rparr>"
proof -
  let ?sp = "\<lambda>c. c = CHR '' ''"
  define r1 where "r1 = dropWhile (\<lambda>c. c \<noteq> CHR '' '') line"
  define r3 where "r3 = tl (dropWhile ?sp r1)"
  define r5 where "r5 = tl (dropWhile (\<lambda>c. c \<noteq> CHR '')'') r3)"
  define s where "s = takeWhile (\<lambda>c. c \<noteq> CHR '';'') r5"
  define r7 where "r7 = tl (dropWhile (\<lambda>c. c \<noteq> CHR '';'') r5)"
  have td: "set (tl (dropWhile P xs)) \<subseteq> set xs" for P and xs :: string
    using set_tl_subset [of "dropWhile P xs"] set_dropWhile_subset [of P xs] by blast
  have sub: "set r1 \<subseteq> set line" "set r3 \<subseteq> set r1" "set r5 \<subseteq> set r3" "set s \<subseteq> set r5"
    "set r7 \<subseteq> set r5"
    unfolding r1_def r3_def r5_def s_def r7_def
    by (rule set_dropWhile_subset, rule td, rule td, rule set_takeWhile_subset, rule td)
  have noLF: "LF \<notin> set r1" "LF \<notin> set r3" "LF \<notin> set r5" "LF \<notin> set s" "LF \<notin> set r7"
    using sub assms(2) by blast+
  have eqs: "m1 = takeWhile (\<lambda>c. c \<noteq> CHR '' '') line" "m1 \<noteq> []"
    "m2 = takeWhile (\<lambda>c. c \<noteq> CHR '')'') r3" "m2 \<noteq> []"
    "m3 = (if dropWhile ?sp s = [] then '' '' else dropWhile ?sp s)"
    "m4 = takeWhile (\<lambda>c. c \<noteq> LF) (dropWhile ?sp r7)"
    using entryLineRegex_SomeD [OF assms(1)]
    unfolding r1_def r3_def r5_def s_def r7_def by blast+
  have p: "CHR '' '' \<notin> set m1 \<and> LF \<notin> set m1"
    using eqs(1) assms(2) by (auto dest: set_takeWhileD)
  have v: "CHR '')'' \<notin> set m2 \<and> LF \<notin> set m2"
    using eqs(3) noLF(2) by (auto dest: set_takeWhileD)
  have "set (dropWhile ?sp s) \<subseteq> set s"
    by (rule set_dropWhile_subset)
  moreover have "CHR '';'' \<notin> set s"
    unfolding s_def by (auto dest: set_takeWhileD)
  ultimately have t: "CHR '';'' \<notin> set (dropWhile ?sp s) \<and> LF \<notin> set (dropWhile ?sp s)"
    using noLF(4) by blast
  have th: "dropWhile ?sp s \<noteq> [] \<Longrightarrow> hd (dropWhile ?sp s) \<noteq> CHR '' ''"
    using hd_dropWhile [of ?sp s] by simp
  have dd: "m3 \<noteq> [] \<and> CHR '';'' \<notin> set m3 \<and> LF \<notin> set m3
      \<and> (m3 = '' '' \<or> hd m3 \<noteq> CHR '' '')"
    using eqs(5) t th by (cases "dropWhile ?sp s = []") simp_all
  have "set m4 \<subseteq> set r7"
    unfolding eqs(6)
    using set_takeWhile_subset [of "\<lambda>c. c \<noteq> LF" "dropWhile ?sp r7"]
      set_dropWhile_subset [of ?sp r7]
    by blast
  then have m: "LF \<notin> set m4"
    using noLF(5) by blast
  have mh: "m4 = [] \<or> hd m4 \<noteq> CHR '' ''"
    unfolding eqs(6) using hd_takeWhile_dropWhile [of "\<lambda>c. c \<noteq> LF" ?sp r7] by simp
  show ?thesis
    using eqs(2,4) p v dd m mh by (simp add: wfHeader_def)
qed

lemma maintainerLineRegex_wf:
  assumes "maintainerLineRegex line = Some (m1, m2, m3)" and "LF \<notin> set line"
  shows "m1 \<noteq> [] \<and> CHR ''<'' \<notin> set m1 \<and> LF \<notin> set m1
     \<and> m2 \<noteq> [] \<and> CHR ''>'' \<notin> set m2 \<and> LF \<notin> set m2"
proof -
  define r0 where "r0 = drop (length maintainerLinePrefix) line"
  define s where "s = takeWhile (\<lambda>c. c \<noteq> CHR ''<'') r0"
  define r2 where "r2 = tl (dropWhile (\<lambda>c. c \<noteq> CHR ''<'') r0)"
  have sub0: "set r0 \<subseteq> set line"
    unfolding r0_def by (rule set_drop_subset)
  have sub: "set s \<subseteq> set r0" "set r2 \<subseteq> set r0"
    unfolding s_def r2_def
    using set_takeWhile_subset [of "\<lambda>c. c \<noteq> CHR ''<''" r0]
      set_tl_subset [of "dropWhile (\<lambda>c. c \<noteq> CHR ''<'') r0"]
      set_dropWhile_subset [of "\<lambda>c. c \<noteq> CHR ''<''" r0]
    by blast+
  have eqs: "m1 = butlast s" "\<not> length s < 2" "m2 = takeWhile (\<lambda>c. c \<noteq> CHR ''>'') r2" "m2 \<noteq> []"
    using assms(1)
    by (simp_all add: maintainerLineRegex_def Let_def r0_def s_def r2_def split: if_splits)
  have "set m1 \<subseteq> set s"
    unfolding eqs(1) by (auto dest: in_set_butlastD)
  moreover have "CHR ''<'' \<notin> set s"
    unfolding s_def by (auto dest: set_takeWhileD)
  ultimately have a: "CHR ''<'' \<notin> set m1 \<and> LF \<notin> set m1"
    using sub(1) sub0 assms(2) by blast
  have ne: "m1 \<noteq> []"
    using eqs(1,2) by (cases s rule: rev_cases) auto
  have "set m2 \<subseteq> set r2"
    unfolding eqs(3) by (rule set_takeWhile_subset)
  moreover have "CHR ''>'' \<notin> set m2"
    unfolding eqs(3) by (auto dest: set_takeWhileD)
  ultimately have b: "CHR ''>'' \<notin> set m2 \<and> LF \<notin> set m2"
    using sub(2) sub0 assms(2) by blast
  show ?thesis
    using a ne b eqs(4) by simp
qed

subsection \<open>The entries of the parser are well formed\<close>

lemma wfChanges_Nil: "wfChanges []"
  by (simp add: wfChanges_def)

lemma wfChanges_snoc:
  "wfChanges (cs @ [c]) =
     (wfChanges cs \<and> LF \<notin> set (Summary c)
      \<and> (\<forall>d\<in>set (Details c). Lines d \<noteq> [] \<and> (\<forall>l\<in>set (Lines d). LF \<notin> set l)))"
  by (auto simp: wfChanges_def)

lemma upd_last_eq: "xs \<noteq> [] \<Longrightarrow> upd_last f xs = butlast xs @ [f (last xs)]"
  by (simp add: upd_last_def)

lemma wfChanges_last:
  assumes "wfChanges cs" and "cs \<noteq> []"
  shows "wfChanges (butlast cs)" and "LF \<notin> set (Summary (last cs))"
    and "\<forall>d\<in>set (Details (last cs)). Lines d \<noteq> [] \<and> (\<forall>l\<in>set (Lines d). LF \<notin> set l)"
proof -
  have "wfChanges (butlast cs @ [last cs])"
    using assms by simp
  then show "wfChanges (butlast cs)" and "LF \<notin> set (Summary (last cs))"
    and "\<forall>d\<in>set (Details (last cs)). Lines d \<noteq> [] \<and> (\<forall>l\<in>set (Lines d). LF \<notin> set l)"
    unfolding wfChanges_snoc by blast+
qed

lemma wfHeader_Changes [simp]: "wfHeader (e\<lparr>Changes := cs\<rparr>) = wfHeader e"
  by (simp add: wfHeader_def)

lemma noLF_drop: "LF \<notin> set line \<Longrightarrow> LF \<notin> set (drop n line)"
  by (auto dest: in_set_dropD)

lemma processChangeLine_wf:
  assumes "wfState st" and "LF \<notin> set line" and "processChangeLine st line = Inr st1"
    and "state st \<noteq> parseStateInitial"
  shows "wfState st1"
proof -
  obtain e where e: "entry st = Some e"
    using assms(3) by (auto simp: processChangeLine_def split: option.splits)
  have st1: "st1 = st\<lparr>entry := Some (e\<lparr>Changes := Changes e @
                       [\<lparr>Summary = drop (length changePrefix) line, Details = []\<rparr>]\<rparr>),
                  state := parseStateInChange\<rparr>"
    using assms(3) e by (simp add: processChangeLine_def)
  show ?thesis
    using assms(1,2,4) e unfolding st1
    by (simp add: wfState_def wfChanges_snoc noLF_drop)
qed

lemma processDetailHeadLine_wf:
  assumes "wfState st" and "LF \<notin> set line" and "processDetailHeadLine st line = Inr st1"
    and "state st \<noteq> parseStateInitial"
  shows "wfState st1"
proof -
  obtain e where e: "entry st = Some e" and ne: "Changes e \<noteq> []"
    using assms(3) by (auto simp: processDetailHeadLine_def split: option.splits if_splits)
  let ?c = "last (Changes e)"
  have st1: "st1 = st\<lparr>entry := Some (e\<lparr>Changes := butlast (Changes e) @
       [?c\<lparr>Details := Details ?c @ [\<lparr>Lines = [drop (length detailHeadPrefix) line]\<rparr>]\<rparr>]\<rparr>),
                  state := parseStateInDetail\<rparr>"
    using assms(3) e ne by (simp add: processDetailHeadLine_def upd_last_eq)
  have wf: "wfChanges (Changes e)"
    using assms(1,4) e by (simp add: wfState_def)
  show ?thesis
    using assms(1,2,4) e wfChanges_last [OF wf ne] unfolding st1
    by (simp add: wfState_def wfChanges_snoc noLF_drop)
qed

lemma processDetailTailLine_wf:
  assumes "wfState st" and "LF \<notin> set line" and "processDetailTailLine st line = Inr st1"
    and "state st \<noteq> parseStateInitial"
  shows "wfState st1"
proof -
  obtain e where e: "entry st = Some e" and ne: "Changes e \<noteq> []"
    and nd: "Details (last (Changes e)) \<noteq> []"
    using assms(3) by (auto simp: processDetailTailLine_def split: option.splits if_splits)
  let ?c = "last (Changes e)"
  let ?d = "last (Details ?c)"
  have st1: "st1 = st\<lparr>entry := Some (e\<lparr>Changes := butlast (Changes e) @
       [?c\<lparr>Details := butlast (Details ?c) @
           [?d\<lparr>Lines := Lines ?d @ [drop (length detailTailPrefix) line]\<rparr>]\<rparr>]\<rparr>)\<rparr>"
    using assms(3) e ne nd by (simp add: processDetailTailLine_def upd_last_eq)
  have wf: "wfChanges (Changes e)"
    using assms(1,4) e by (simp add: wfState_def)
  have ds: "\<forall>d\<in>set (Details ?c). Lines d \<noteq> [] \<and> (\<forall>l\<in>set (Lines d). LF \<notin> set l)"
    using wfChanges_last(3) [OF wf ne] .
  have "?d \<in> set (Details ?c)"
    using nd by simp
  then have dl: "\<forall>l\<in>set (Lines ?d). LF \<notin> set l"
    using ds by blast
  have db: "\<forall>d\<in>set (butlast (Details ?c)). Lines d \<noteq> [] \<and> (\<forall>l\<in>set (Lines d). LF \<notin> set l)"
    using ds by (auto dest: in_set_butlastD)
  show ?thesis
    using assms(1,2,4) e wfChanges_last(1,2) [OF wf ne] dl db unfolding st1
    by (simp add: wfState_def wfChanges_snoc noLF_drop)
qed

lemma processMaintainerLine_wf:
  assumes "wfState st" and "LF \<notin> set line" and "processMaintainerLine tparse st line = Inr st1"
    and "state st \<noteq> parseStateInitial"
  shows "wfState st1"
proof -
  obtain e where e: "entry st = Some e"
    using assms(3) by (auto simp: processMaintainerLine_def split: option.splits)
  obtain e1 where p: "parseMaintainerLine tparse e line = (e1, None)"
    and st1: "st1 = st\<lparr>entries := entries st @ [e1], entry := Some e1,
                       state := parseStateInitial\<rparr>"
    using assms(3) e by (auto simp: processMaintainerLine_def split: prod.splits option.splits)
  obtain m1 m2 m3 d where m: "maintainerLineRegex line = Some (m1, m2, m3)"
    and e1: "e1 = e\<lparr>MaintainerName := m1, EmailAddress := m2, Date := d\<rparr>"
    using p by (auto simp: parseMaintainerLine_def Let_def split: option.splits sum.splits)
  have "wfHeader e \<and> wfChanges (Changes e)"
    using assms(1,4) e by (simp add: wfState_def)
  then have "wfEntry e1"
    using maintainerLineRegex_wf [OF m assms(2)] unfolding e1
    by (simp add: wfEntry_def wfHeader_def wfTrailer_def)
  then show ?thesis
    using assms(1) unfolding st1 by (simp add: wfState_def)
qed

lemma processLine_cases:
  assumes "processLine tparse st line = Inr st1" and "state st \<noteq> parseStateInitial"
  shows "processChangeLine st line = Inr st1 \<or> processDetailHeadLine st line = Inr st1
    \<or> processDetailTailLine st line = Inr st1
    \<or> processMaintainerLine tparse st line = Inr st1 \<or> st1 = st"
  using assms by (cases "state st") (auto simp: processLine_def split: if_splits)

lemma processLine_wf:
  assumes "wfState st" and "LF \<notin> set line" and "processLine tparse st line = Inr st1"
  shows "wfState st1"
proof (cases "state st = parseStateInitial")
  case True
  then obtain m1 m2 m3 m4 where m: "entryLineRegex line = Some (m1, m2, m3, m4)"
    and st1: "st1 = st\<lparr>entry := Some \<lparr>Package = m1, Version = m2, Distributions = m3,
        Metadata = m4, MaintainerName = [], EmailAddress = [], Date = zeroTime, Changes = []\<rparr>,
        state := parseStateInEntry\<rparr>"
    using assms(3)
    by (auto simp: processLine_def parseEntryLine_def split: option.splits sum.splits)
  show ?thesis
    using assms(1) entryLineRegex_wf [OF m assms(2)] unfolding st1
    by (simp add: wfState_def wfChanges_Nil)
next
  case False
  from processLine_cases [OF assms(3) False] show ?thesis
  proof (elim disjE)
    assume "processChangeLine st line = Inr st1"
    then show ?thesis
      by (rule processChangeLine_wf [OF assms(1) assms(2) _ False])
  next
    assume "processDetailHeadLine st line = Inr st1"
    then show ?thesis
      by (rule processDetailHeadLine_wf [OF assms(1) assms(2) _ False])
  next
    assume "processDetailTailLine st line = Inr st1"
    then show ?thesis
      by (rule processDetailTailLine_wf [OF assms(1) assms(2) _ False])
  next
    assume "processMaintainerLine tparse st line = Inr st1"
    then show ?thesis
      by (rule processMaintainerLine_wf [OF assms(1) assms(2) _ False])
  next
    assume "st1 = st"
    then show ?thesis
      using assms(1) by simp
  qed
qed

lemma parseLoop_wf:
  assumes "wfState st" and "parseLoop tparse failure inp st = (es, None)"
  shows "\<forall>e\<in>set es. wfEntry e"
  using assms
proof (induction inp arbitrary: st rule: length_induct)
  case (1 inp)
  show ?case
  proof (cases "LF \<in> set inp")
    case False
    then show ?thesis
      using 1(2,3) by (auto simp: parseLoop_eof wfState_def split: option.splits)
  next
    case True
    then obtain l0 rest where inp: "inp = l0 @ LF # rest" and l0: "LF \<notin> set l0"
      by (meson split_list_first)
    have len: "length rest < length inp"
      using inp by simp
    have ih: "wfState st' \<Longrightarrow> parseLoop tparse failure rest st' = (es, None)
        \<Longrightarrow> \<forall>e\<in>set es. wfEntry e" for st'
      using 1(1) len by blast
    show ?thesis
    proof (cases "l0 = []")
      case True
      then show ?thesis
        using inp ih [of st] 1(2,3) by (simp add: parseLoop_blank)
    next
      case False
      show ?thesis
      proof (cases "processLine tparse st l0")
        case (Inl err)
        then show ?thesis
          using inp 1(3) parseLoop_line [OF l0 False, of tparse failure rest st] by simp
      next
        case (Inr st1)
        then have "parseLoop tparse failure rest st1 = (es, None)"
          using inp 1(3) parseLoop_line [OF l0 False, of tparse failure rest st] by simp
        then show ?thesis
          using ih [of st1] processLine_wf [OF 1(2) l0 Inr] by blast
      qed
    qed
  qed
qed

lemma parseChangelog_wf:
  assumes "parseChangelog tparse r = (es, None)"
  shows "\<forall>e\<in>set es. wfEntry e"
  using assms unfolding parseChangelog_def
  by (intro parseLoop_wf [where st = "\<lparr>entries = [], entry = None, state = parseStateInitial\<rparr>"])
    (simp_all add: wfState_def)

subsection \<open>The loop on the lines of a rendered entry\<close>

lemma HasPrefix_append [simp]: "HasPrefix (p @ r) p"
  by (simp add: HasPrefix_def)

lemma tail_not_change: "\<not> HasPrefix (detailTailPrefix @ l) changePrefix"
  by (simp add: HasPrefix_def detailTailPrefix_def changePrefix_def)

lemma tail_not_head: "\<not> HasPrefix (detailTailPrefix @ l) detailHeadPrefix"
  by (simp add: HasPrefix_def detailTailPrefix_def detailHeadPrefix_def)

lemma step_tail:
  "processLine tparse
     \<lparr>entries = E,
      entry = Some (h\<lparr>Changes := cs0 @ [\<lparr>Summary = sm, Details = ds0 @ [\<lparr>Lines = ls0\<rparr>]\<rparr>]\<rparr>),
      state = parseStateInDetail\<rparr>
     (detailTailPrefix @ l)
   = Inr \<lparr>entries = E,
      entry = Some (h\<lparr>Changes := cs0 @ [\<lparr>Summary = sm, Details = ds0 @ [\<lparr>Lines = ls0 @ [l]\<rparr>]\<rparr>]\<rparr>),
      state = parseStateInDetail\<rparr>"
  by (simp add: processLine_def tail_not_change tail_not_head processDetailTailLine_def)

lemma step_head:
  assumes "s = parseStateInChange \<or> s = parseStateInDetail"
  shows "processLine tparse
     \<lparr>entries = E,
      entry = Some (h\<lparr>Changes := cs0 @ [\<lparr>Summary = sm, Details = ds0\<rparr>]\<rparr>),
      state = s\<rparr>
     (detailHeadPrefix @ l)
   = Inr \<lparr>entries = E,
      entry = Some (h\<lparr>Changes := cs0 @ [\<lparr>Summary = sm, Details = ds0 @ [\<lparr>Lines = [l]\<rparr>]\<rparr>]\<rparr>),
      state = parseStateInDetail\<rparr>"
  using assms detailHead_not_change [of "detailHeadPrefix @ l"]
  by (auto simp: processLine_def processDetailHeadLine_def)

lemma step_change:
  assumes "s \<noteq> parseStateInitial"
  shows "processLine tparse
     \<lparr>entries = E, entry = Some (h\<lparr>Changes := cs0\<rparr>), state = s\<rparr>
     (changePrefix @ sm)
   = Inr \<lparr>entries = E,
      entry = Some (h\<lparr>Changes := cs0 @ [\<lparr>Summary = sm, Details = []\<rparr>]\<rparr>),
      state = parseStateInChange\<rparr>"
  using assms by (cases s) (simp_all add: processLine_def processChangeLine_def)

lemma noLF_prefixes:
  "LF \<notin> set changePrefix" "LF \<notin> set detailHeadPrefix" "LF \<notin> set detailTailPrefix"
  "LF \<notin> set maintainerLinePrefix"
  by (simp_all add: changePrefix_def detailHeadPrefix_def detailTailPrefix_def
      maintainerLinePrefix_def)

lemma prefixes_nonempty:
  "changePrefix \<noteq> []" "detailHeadPrefix \<noteq> []" "detailTailPrefix \<noteq> []"
  "maintainerLinePrefix \<noteq> []"
  by (simp_all add: changePrefix_def detailHeadPrefix_def detailTailPrefix_def
      maintainerLinePrefix_def)

lemma loop_tail_lines:
  assumes "\<forall>l\<in>set ls. LF \<notin> set l"
  shows "parseLoop tparse failure (detailLines (Suc i) ls @ rest)
     \<lparr>entries = E,
      entry = Some (h\<lparr>Changes := cs0 @ [\<lparr>Summary = sm, Details = ds0 @ [\<lparr>Lines = ls0\<rparr>]\<rparr>]\<rparr>),
      state = parseStateInDetail\<rparr>
   = parseLoop tparse failure rest
     \<lparr>entries = E,
      entry = Some (h\<lparr>Changes := cs0 @ [\<lparr>Summary = sm, Details = ds0 @ [\<lparr>Lines = ls0 @ ls\<rparr>]\<rparr>]\<rparr>),
      state = parseStateInDetail\<rparr>"
  using assms
proof (induction ls arbitrary: i ls0)
  case Nil
  then show ?case by simp
next
  case (Cons l ls)
  have nl: "LF \<notin> set (detailTailPrefix @ l)"
    using Cons.prems noLF_prefixes by simp
  have ne: "detailTailPrefix @ l \<noteq> []"
    using prefixes_nonempty by simp
  have "detailLines (Suc i) (l # ls) @ rest
      = (detailTailPrefix @ l) @ LF # (detailLines (Suc (Suc i)) ls @ rest)"
    by simp
  then show ?case
    using parseLoop_line [OF nl ne, of tparse failure "detailLines (Suc (Suc i)) ls @ rest"]
      Cons.IH [where i = "Suc i" and ?ls0.0 = "ls0 @ [l]"] Cons.prems
    by (simp add: step_tail)
qed

lemma loop_detail:
  assumes "s = parseStateInChange \<or> s = parseStateInDetail"
    and "Lines d \<noteq> []" and "\<forall>l\<in>set (Lines d). LF \<notin> set l"
  shows "parseLoop tparse failure (detailLines 0 (Lines d) @ rest)
     \<lparr>entries = E,
      entry = Some (h\<lparr>Changes := cs0 @ [\<lparr>Summary = sm, Details = ds0\<rparr>]\<rparr>),
      state = s\<rparr>
   = parseLoop tparse failure rest
     \<lparr>entries = E,
      entry = Some (h\<lparr>Changes := cs0 @ [\<lparr>Summary = sm, Details = ds0 @ [d]\<rparr>]\<rparr>),
      state = parseStateInDetail\<rparr>"
proof -
  obtain l ls where ls: "Lines d = l # ls"
    using assms(2) by (cases "Lines d") auto
  have d: "d = \<lparr>Lines = l # ls\<rparr>"
    using ls by (cases d) simp
  have nl: "LF \<notin> set (detailHeadPrefix @ l)"
    using assms(3) ls noLF_prefixes by simp
  have ne: "detailHeadPrefix @ l \<noteq> []"
    using prefixes_nonempty by simp
  have tl: "\<forall>l\<in>set ls. LF \<notin> set l"
    using assms(3) ls by simp
  have "detailLines 0 (Lines d) @ rest
      = (detailHeadPrefix @ l) @ LF # (detailLines (Suc 0) ls @ rest)"
    using ls by simp
  then show ?thesis
    using parseLoop_line [OF nl ne, of tparse failure "detailLines (Suc 0) ls @ rest"]
      step_head [OF assms(1), where tparse = tparse and E = E and h = h and ?cs0.0 = cs0
        and sm = sm and ?ds0.0 = ds0 and l = l]
      loop_tail_lines [OF tl, where tparse = tparse and failure = failure and i = 0
        and rest = rest and E = E and h = h and ?cs0.0 = cs0 and sm = sm and ?ds0.0 = ds0
        and ?ls0.0 = "[l]"] d
    by simp
qed

lemma loop_details:
  assumes "s = parseStateInChange \<or> s = parseStateInDetail"
    and "\<forall>d\<in>set ds. Lines d \<noteq> [] \<and> (\<forall>l\<in>set (Lines d). LF \<notin> set l)"
  shows "parseLoop tparse failure
     (concat (map (\<lambda>detail. detailLines 0 (Lines detail)) ds) @ rest)
     \<lparr>entries = E,
      entry = Some (h\<lparr>Changes := cs0 @ [\<lparr>Summary = sm, Details = ds0\<rparr>]\<rparr>),
      state = s\<rparr>
   = parseLoop tparse failure rest
     \<lparr>entries = E,
      entry = Some (h\<lparr>Changes := cs0 @ [\<lparr>Summary = sm, Details = ds0 @ ds\<rparr>]\<rparr>),
      state = (if ds = [] then s else parseStateInDetail)\<rparr>"
  using assms
proof (induction ds arbitrary: s ds0)
  case Nil
  then show ?case by simp
next
  case (Cons d ds)
  have d: "Lines d \<noteq> []" "\<forall>l\<in>set (Lines d). LF \<notin> set l"
    using Cons.prems(2) by simp_all
  have ds: "\<forall>d\<in>set ds. Lines d \<noteq> [] \<and> (\<forall>l\<in>set (Lines d). LF \<notin> set l)"
    using Cons.prems(2) by simp
  have "parseLoop tparse failure
     (concat (map (\<lambda>detail. detailLines 0 (Lines detail)) (d # ds)) @ rest)
     \<lparr>entries = E,
      entry = Some (h\<lparr>Changes := cs0 @ [\<lparr>Summary = sm, Details = ds0\<rparr>]\<rparr>),
      state = s\<rparr>
    = parseLoop tparse failure
     (concat (map (\<lambda>detail. detailLines 0 (Lines detail)) ds) @ rest)
     \<lparr>entries = E,
      entry = Some (h\<lparr>Changes := cs0 @ [\<lparr>Summary = sm, Details = ds0 @ [d]\<rparr>]\<rparr>),
      state = parseStateInDetail\<rparr>"
    using loop_detail [OF Cons.prems(1) d, where tparse = tparse and failure = failure
        and rest = "concat (map (\<lambda>detail. detailLines 0 (Lines detail)) ds) @ rest"
        and E = E and h = h and ?cs0.0 = cs0 and sm = sm and ?ds0.0 = ds0]
    by simp
  also have "\<dots> = parseLoop tparse failure rest
     \<lparr>entries = E,
      entry = Some (h\<lparr>Changes := cs0 @ [\<lparr>Summary = sm, Details = (ds0 @ [d]) @ ds\<rparr>]\<rparr>),
      state = (if ds = [] then parseStateInDetail else parseStateInDetail)\<rparr>"
    by (rule Cons.IH [OF _ ds]) simp
  finally show ?case by simp
qed

lemma loop_change:
  assumes "s \<noteq> parseStateInitial" and "LF \<notin> set (Summary c)"
    and "\<forall>d\<in>set (Details c). Lines d \<noteq> [] \<and> (\<forall>l\<in>set (Lines d). LF \<notin> set l)"
  shows "parseLoop tparse failure
     ((changePrefix @ Summary c @ [LF]
        @ concat (map (\<lambda>detail. detailLines 0 (Lines detail)) (Details c))) @ rest)
     \<lparr>entries = E, entry = Some (h\<lparr>Changes := cs0\<rparr>), state = s\<rparr>
   = parseLoop tparse failure rest
     \<lparr>entries = E, entry = Some (h\<lparr>Changes := cs0 @ [c]\<rparr>),
      state = (if Details c = [] then parseStateInChange else parseStateInDetail)\<rparr>"
proof -
  let ?ds = "concat (map (\<lambda>detail. detailLines 0 (Lines detail)) (Details c)) @ rest"
  have nl: "LF \<notin> set (changePrefix @ Summary c)"
    using assms(2) noLF_prefixes by simp
  have ne: "changePrefix @ Summary c \<noteq> []"
    using prefixes_nonempty by simp
  have c: "c = \<lparr>Summary = Summary c, Details = Details c\<rparr>"
    by (cases c) simp
  have "parseLoop tparse failure ((changePrefix @ Summary c) @ LF # ?ds)
     \<lparr>entries = E, entry = Some (h\<lparr>Changes := cs0\<rparr>), state = s\<rparr>
    = parseLoop tparse failure ?ds
     \<lparr>entries = E,
      entry = Some (h\<lparr>Changes := cs0 @ [\<lparr>Summary = Summary c, Details = []\<rparr>]\<rparr>),
      state = parseStateInChange\<rparr>"
    using parseLoop_line [OF nl ne, of tparse failure ?ds]
      step_change [OF assms(1), where tparse = tparse and E = E and h = h and ?cs0.0 = cs0
        and sm = "Summary c"]
    by simp
  also have "\<dots> = parseLoop tparse failure rest
     \<lparr>entries = E,
      entry = Some (h\<lparr>Changes := cs0 @ [\<lparr>Summary = Summary c, Details = [] @ Details c\<rparr>]\<rparr>),
      state = (if Details c = [] then parseStateInChange else parseStateInDetail)\<rparr>"
    by (rule loop_details [OF _ assms(3)]) simp
  finally show ?thesis
    using c by simp
qed

lemma loop_changes:
  assumes "s \<noteq> parseStateInitial" and "wfChanges cs"
  shows "\<exists>s'. s' \<noteq> parseStateInitial \<and>
     parseLoop tparse failure
       (concat (map (\<lambda>change. changePrefix @ Summary change @ [LF]
                      @ concat (map (\<lambda>detail. detailLines 0 (Lines detail)) (Details change)))
                cs) @ rest)
       \<lparr>entries = E, entry = Some (h\<lparr>Changes := cs0\<rparr>), state = s\<rparr>
     = parseLoop tparse failure rest
       \<lparr>entries = E, entry = Some (h\<lparr>Changes := cs0 @ cs\<rparr>), state = s'\<rparr>"
  using assms
proof (induction cs arbitrary: s cs0)
  case Nil
  then show ?case by auto
next
  case (Cons c cs)
  let ?render = "\<lambda>change. changePrefix @ Summary change @ [LF]
                      @ concat (map (\<lambda>detail. detailLines 0 (Lines detail)) (Details change))"
  let ?s1 = "if Details c = [] then parseStateInChange else parseStateInDetail"
  have c: "LF \<notin> set (Summary c)"
    "\<forall>d\<in>set (Details c). Lines d \<noteq> [] \<and> (\<forall>l\<in>set (Lines d). LF \<notin> set l)"
    using Cons.prems(2) by (simp_all add: wfChanges_def)
  have cs: "wfChanges cs"
    using Cons.prems(2) by (simp add: wfChanges_def)
  have s1: "?s1 \<noteq> parseStateInitial"
    by simp
  obtain s' where s': "s' \<noteq> parseStateInitial"
    and rest: "parseLoop tparse failure (concat (map ?render cs) @ rest)
       \<lparr>entries = E, entry = Some (h\<lparr>Changes := (cs0 @ [c])\<rparr>), state = ?s1\<rparr>
     = parseLoop tparse failure rest
       \<lparr>entries = E, entry = Some (h\<lparr>Changes := (cs0 @ [c]) @ cs\<rparr>), state = s'\<rparr>"
    using Cons.IH [OF s1 cs, of "cs0 @ [c]"] by blast
  have "parseLoop tparse failure (concat (map ?render (c # cs)) @ rest)
       \<lparr>entries = E, entry = Some (h\<lparr>Changes := cs0\<rparr>), state = s\<rparr>
     = parseLoop tparse failure (concat (map ?render cs) @ rest)
       \<lparr>entries = E, entry = Some (h\<lparr>Changes := cs0 @ [c]\<rparr>), state = ?s1\<rparr>"
    using loop_change [OF Cons.prems(1) c, where tparse = tparse and failure = failure
        and rest = "concat (map ?render cs) @ rest" and E = E and h = h and ?cs0.0 = cs0]
    by simp
  then show ?case
    using s' rest by auto
qed

lemma step_trailer:
  assumes "s \<noteq> parseStateInitial"
    and "name \<noteq> []" "CHR ''<'' \<notin> set name" "email \<noteq> []" "CHR ''>'' \<notin> set email"
    and "LF \<notin> set dt" "dt = [] \<or> hd dt \<noteq> CHR '' ''" and "tparse dt = Inr d"
  shows "processLine tparse \<lparr>entries = E, entry = Some x, state = s\<rparr>
     (maintainerLinePrefix @ name @ '' <'' @ email @ ''> '' @ dt)
   = Inr \<lparr>entries = E @ [x\<lparr>MaintainerName := name, EmailAddress := email, Date := d\<rparr>],
          entry = Some (x\<lparr>MaintainerName := name, EmailAddress := email, Date := d\<rparr>),
          state = parseStateInitial\<rparr>"
proof -
  let ?line = "maintainerLinePrefix @ name @ '' <'' @ email @ ''> '' @ dt"
  have pre: "HasPrefix ?line maintainerLinePrefix"
    by simp
  have m: "maintainerLineRegex ?line = Some (name, email, dt)"
    using assms(2-7) by (rule maintainerLineRegex_render)
  have p: "processMaintainerLine tparse \<lparr>entries = E, entry = Some x, state = s\<rparr> ?line
     = Inr \<lparr>entries = E @ [x\<lparr>MaintainerName := name, EmailAddress := email, Date := d\<rparr>],
          entry = Some (x\<lparr>MaintainerName := name, EmailAddress := email, Date := d\<rparr>),
          state = parseStateInitial\<rparr>"
    using m assms(8) by (simp add: processMaintainerLine_def parseMaintainerLine_def)
  show ?thesis
    using assms(1) p maintainer_not_change [OF pre] maintainer_not_detailHead [OF pre]
      maintainer_not_detailTail [OF pre] pre
    by (cases s) (simp_all add: processLine_def)
qed

lemma loop_entry:
  assumes "wfEntry e" and "tparse (tformat (Date e)) = Inr (Date e)"
    and "LF \<notin> set (tformat (Date e))"
    and "tformat (Date e) = [] \<or> hd (tformat (Date e)) \<noteq> CHR '' ''"
  shows "parseLoop tparse failure (Entry_String tformat e @ LF # rest)
     \<lparr>entries = E, entry = X, state = parseStateInitial\<rparr>
   = parseLoop tparse failure rest
     \<lparr>entries = E @ [e], entry = Some e, state = parseStateInitial\<rparr>"
proof -
  let ?hl = "Package e @ '' ('' @ Version e @ '') '' @ Distributions e @ ''; '' @ Metadata e"
  let ?render = "\<lambda>change. changePrefix @ Summary change @ [LF]
                      @ concat (map (\<lambda>detail. detailLines 0 (Lines detail)) (Details change))"
  let ?tl = "maintainerLinePrefix @ MaintainerName e @ '' <'' @ EmailAddress e @ ''> ''
     @ tformat (Date e)"
  let ?hdr = "\<lparr>Package = Package e, Version = Version e, Distributions = Distributions e,
     Metadata = Metadata e, MaintainerName = [], EmailAddress = [], Date = zeroTime,
     Changes = []\<rparr>"
  have h: "wfHeader e" and t: "wfTrailer e" and c: "wfChanges (Changes e)"
    using assms(1) by (simp_all add: wfEntry_def)
  have str: "Entry_String tformat e @ LF # rest
      = ?hl @ LF # (concat (map ?render (Changes e)) @ (?tl @ LF # rest))"
    by (simp add: Entry_String_def)
  have hnl: "LF \<notin> set ?hl"
    using h by (simp add: wfHeader_def)
  have hne: "?hl \<noteq> []"
    using h by (simp add: wfHeader_def)
  have "entryLineRegex ?hl = Some (Package e, Version e, Distributions e, Metadata e)"
    using h by (intro entryLineRegex_render) (simp_all add: wfHeader_def)
  then have hs: "processLine tparse \<lparr>entries = E, entry = X, state = parseStateInitial\<rparr> ?hl
      = Inr \<lparr>entries = E, entry = Some (?hdr\<lparr>Changes := []\<rparr>), state = parseStateInEntry\<rparr>"
    by (simp add: processLine_def parseEntryLine_def)
  obtain s' where s': "s' \<noteq> parseStateInitial"
    and cl: "parseLoop tparse failure (concat (map ?render (Changes e)) @ (?tl @ LF # rest))
       \<lparr>entries = E, entry = Some (?hdr\<lparr>Changes := []\<rparr>), state = parseStateInEntry\<rparr>
     = parseLoop tparse failure (?tl @ LF # rest)
       \<lparr>entries = E, entry = Some (?hdr\<lparr>Changes := [] @ Changes e\<rparr>), state = s'\<rparr>"
    using loop_changes [OF _ c, where s = parseStateInEntry and tparse = tparse
        and failure = failure and rest = "?tl @ LF # rest" and E = E and h = ?hdr
        and ?cs0.0 = "[]"]
    by auto
  have tnl: "LF \<notin> set ?tl"
    using t assms(3) noLF_prefixes by (simp add: wfTrailer_def)
  have tne: "?tl \<noteq> []"
    using prefixes_nonempty by simp
  have e: "(?hdr\<lparr>Changes := [] @ Changes e\<rparr>)\<lparr>MaintainerName := MaintainerName e,
      EmailAddress := EmailAddress e, Date := Date e\<rparr> = e"
    by (cases e) simp
  have ts: "processLine tparse
       \<lparr>entries = E, entry = Some (?hdr\<lparr>Changes := [] @ Changes e\<rparr>), state = s'\<rparr> ?tl
     = Inr \<lparr>entries = E @ [e], entry = Some e, state = parseStateInitial\<rparr>"
    using step_trailer [OF s', where tparse = tparse and E = E
        and x = "?hdr\<lparr>Changes := [] @ Changes e\<rparr>" and name = "MaintainerName e"
        and email = "EmailAddress e" and dt = "tformat (Date e)" and d = "Date e"]
      t assms(2,3,4) e
    by (simp add: wfTrailer_def)
  have "parseLoop tparse failure (Entry_String tformat e @ LF # rest)
     \<lparr>entries = E, entry = X, state = parseStateInitial\<rparr>
    = parseLoop tparse failure (concat (map ?render (Changes e)) @ (?tl @ LF # rest))
       \<lparr>entries = E, entry = Some (?hdr\<lparr>Changes := []\<rparr>), state = parseStateInEntry\<rparr>"
    unfolding str using parseLoop_line [OF hnl hne] hs by simp
  also have "\<dots> = parseLoop tparse failure (?tl @ LF # rest)
       \<lparr>entries = E, entry = Some (?hdr\<lparr>Changes := [] @ Changes e\<rparr>), state = s'\<rparr>"
    by (rule cl)
  also have "\<dots> = parseLoop tparse failure rest
     \<lparr>entries = E @ [e], entry = Some e, state = parseStateInitial\<rparr>"
    using parseLoop_line [OF tnl tne] ts by simp
  finally show ?thesis .
qed

lemma loop_entries:
  assumes "\<forall>e\<in>set es. wfEntry e \<and> tparse (tformat (Date e)) = Inr (Date e)
      \<and> LF \<notin> set (tformat (Date e))
      \<and> (tformat (Date e) = [] \<or> hd (tformat (Date e)) \<noteq> CHR '' '')"
  shows "parseLoop tparse None (printEntries tformat i es)
     \<lparr>entries = E, entry = X, state = parseStateInitial\<rparr> = (E @ es, None)"
  using assms
proof (induction es arbitrary: i E X)
  case Nil
  then show ?case by (simp add: parseLoop_eof)
next
  case (Cons e es)
  have e: "wfEntry e" "tparse (tformat (Date e)) = Inr (Date e)"
    "LF \<notin> set (tformat (Date e))" "tformat (Date e) = [] \<or> hd (tformat (Date e)) \<noteq> CHR '' ''"
    using Cons.prems by simp_all
  have es: "\<forall>e\<in>set es. wfEntry e \<and> tparse (tformat (Date e)) = Inr (Date e)
      \<and> LF \<notin> set (tformat (Date e))
      \<and> (tformat (Date e) = [] \<or> hd (tformat (Date e)) \<noteq> CHR '' '')"
    using Cons.prems by simp
  have one: "parseLoop tparse None (Entry_String tformat e @ LF # printEntries tformat (Suc i) es)
     \<lparr>entries = E, entry = X, state = parseStateInitial\<rparr> = (E @ e # es, None)"
    using loop_entry [where e = e and tparse = tparse and tformat = tformat and failure = None
        and rest = "printEntries tformat (Suc i) es" and E = E and X = X, OF e]
      Cons.IH [OF es, of "Suc i" "E @ [e]" "Some e"]
    by simp
  show ?case
  proof (cases "i > 0")
    case True
    then show ?thesis
      using one by (simp add: parseLoop_blank)
  next
    case False
    then show ?thesis
      using one by simp
  qed
qed

subsection \<open>Round trip\<close>

text \<open>
  C1 as stated, "rendering the parsed entries reproduces the accepted text exactly",
  fails on the scenario of the specification: the parser drops the blank lines and
  takes any run of spaces before the date, and \<open>Entry.String\<close> prints no blank line
  and one space.
\<close>

theorem render_not_identity_counterexample:
  "parseChangelog time_Parse (exampleText, None) = ([exampleEntry], None)
   \<and> printEntries time_Format 0 [exampleEntry] = canonicalText
   \<and> canonicalText \<noteq> exampleText"
  by code_simp

text \<open>
  C1, amended: take entries whose fields have the shape the parser produces
  (\<open>wfEntry\<close>) and whose dates \<open>Format\<close> prints as a text without a newline and
  without a leading space that \<open>Parse\<close> reads back as the same date, and let \<open>T\<close> be
  the text that \<open>run\<close> prints for them (each \<open>Entry.String\<close> and a newline, a blank line
  between entries). Then the parser accepts \<open>T\<close> and returns exactly those entries, and
  rendering the parsed entries reproduces \<open>T\<close> byte for byte: render is the inverse of
  parse on the texts in the layout of render. And the entries of every text that the
  parser accepts have that shape.
\<close>

theorem parse_inverts_render:
  "((\<forall>e\<in>set es. wfEntry e \<and> tparse (tformat (Date e)) = Inr (Date e)
        \<and> LF \<notin> set (tformat (Date e))
        \<and> (tformat (Date e) = [] \<or> hd (tformat (Date e)) \<noteq> CHR '' ''))
     \<longrightarrow> parseChangelog tparse (printEntries tformat 0 es, None) = (es, None)
         \<and> printEntries tformat 0
              (fst (parseChangelog tparse (printEntries tformat 0 es, None)))
             = printEntries tformat 0 es)
   \<and> (parseChangelog tparse (T, failure) = (parsed, None) \<longrightarrow> (\<forall>e\<in>set parsed. wfEntry e))"
proof (intro conjI impI)
  assume a: "\<forall>e\<in>set es. wfEntry e \<and> tparse (tformat (Date e)) = Inr (Date e)
        \<and> LF \<notin> set (tformat (Date e))
        \<and> (tformat (Date e) = [] \<or> hd (tformat (Date e)) \<noteq> CHR '' '')"
  have "parseLoop tparse None (printEntries tformat 0 es)
     \<lparr>entries = [], entry = None, state = parseStateInitial\<rparr> = ([] @ es, None)"
    using a by (rule loop_entries)
  then show p: "parseChangelog tparse (printEntries tformat 0 es, None) = (es, None)"
    by (simp add: parseChangelog_def)
  show "printEntries tformat 0
          (fst (parseChangelog tparse (printEntries tformat 0 es, None)))
         = printEntries tformat 0 es"
    by (simp add: p)
next
  assume "parseChangelog tparse (T, failure) = (parsed, None)"
  then show "\<forall>e\<in>set parsed. wfEntry e"
    by (rule parseChangelog_wf)
qed

theorem parse_inverts_render_witness:
  "parseChangelog time_Parse (printEntries time_Format 0 [exampleEntry, headerOnlyEntry], None)
     = ([exampleEntry, headerOnlyEntry], None)
   \<and> printEntries time_Format 0
        (fst (parseChangelog time_Parse
               (printEntries time_Format 0 [exampleEntry, headerOnlyEntry], None)))
       = printEntries time_Format 0 [exampleEntry, headerOnlyEntry]
   \<and> printEntries time_Format 0 [exampleEntry] = canonicalText
   \<and> parseChangelog time_Parse (exampleText, None) = ([exampleEntry], None)
   \<and> wfEntry exampleEntry"
proof -
  have h: "\<forall>e\<in>set [exampleEntry, headerOnlyEntry].
        wfEntry e \<and> time_Parse (time_Format (Date e)) = Inr (Date e)
        \<and> LF \<notin> set (time_Format (Date e))
        \<and> (time_Format (Date e) = [] \<or> hd (time_Format (Date e)) \<noteq> CHR '' '')"
    by code_simp
  have p: "printEntries time_Format 0 [exampleEntry] = canonicalText"
    by code_simp
  have a: "parseChangelog time_Parse (exampleText, None) = ([exampleEntry], None)"
    by code_simp
  have w: "\<forall>e\<in>set [exampleEntry]. wfEntry e"
    using parse_inverts_render [of "[]" time_Parse time_Format exampleText None "[exampleEntry]"] a
    by blast
  show ?thesis
    using parse_inverts_render [of "[exampleEntry, headerOnlyEntry]" time_Parse time_Format
        exampleText None "[exampleEntry]"] h p a w
    by simp
qed

end
